theory Spec2Isabelle
  imports Main
begin

section \<open>The Kakuro solver of kakuro-kuso.py\<close>

text \<open>
  A shallow embedding of \<^verbatim>\<open>kakuro-kuso.py\<close>. Python integers are \<open>int\<close>, a Python
  \<^verbatim>\<open>set\<close> of digits is an \<open>int set\<close>, an exception is a value of \<open>error\<close> on the left of a sum.
  The grid's \<^verbatim>\<open>data\<close> tuple is a list of entries; an entry object is referred to by its position in
  that tuple (its flat index), so a slice of the tuple is the list of the positions it selects, and
  an in-place change of a \<^verbatim>\<open>Cell\<close> is an update of the list at the cell's position.
\<close>

datatype error = AssertionError | KeyError | StopIteration | ValueError

subsection \<open>Sequencing of computations that may raise\<close>

definition ebind :: "error + 'a \<Rightarrow> ('a \<Rightarrow> error + 'b) \<Rightarrow> error + 'b" where
  "ebind m f = (case m of Inl e \<Rightarrow> Inl e | Inr x \<Rightarrow> f x)"

fun emap :: "('a \<Rightarrow> error + 'b) \<Rightarrow> 'a list \<Rightarrow> error + 'b list" where
  "emap f [] = Inr []"
| "emap f (x # xs) = ebind (f x) (\<lambda>y. ebind (emap f xs) (\<lambda>ys. Inr (y # ys)))"

subsection \<open>Triangular numbers\<close>

text \<open>
  \<^verbatim>\<open>triangular\<close> divides with \<^verbatim>\<open>/\<close>, so Python returns a float; \<open>n * (n + 1)\<close> is even, the
  quotient is a whole number and the float holds it exactly (for every \<open>n\<close> below \<open>2^26\<close>, far above
  any run length), and comparing a Python integer with a float is exact. The model therefore
  computes in \<open>int\<close>, and \<^verbatim>\<open>int(...)\<close> of such a value is the value.
\<close>

definition triangular :: "int \<Rightarrow> int" where
  "triangular n = n * (n + 1) div 2"

definition triangular_prime :: "int \<Rightarrow> int \<Rightarrow> int" where
  "triangular_prime n base = n * base - triangular n"

subsection \<open>The lookup table\<close>

text \<open>
  The dictionary \<^verbatim>\<open>lookup\<close>: the comprehension for runs of one cell, then the loop over
  \<^verbatim>\<open>range(2,10)\<close>, one \<open>lookup_step\<close> for each iteration, its assignments in the source's order.
\<close>

definition lookup_init :: "(int \<times> int) \<rightharpoonup> int set" where
  "lookup_init = fold (\<lambda>i m. m((i, 1) \<mapsto> {i})) [1..9] Map.empty"

definition lookup_step :: "int \<Rightarrow> ((int \<times> int) \<rightharpoonup> int set) \<Rightarrow> ((int \<times> int) \<rightharpoonup> int set)" where
  "lookup_step i m =
     (let ti = triangular i;
          invti = triangular_prime i 10;
          minset = {1..i};
          maxset = {10 - i..9};
          m1 = m((ti, i) \<mapsto> minset);
          m2 = m1((invti, i) \<mapsto> maxset)
      in if i < 9
         then (m2((ti + 1, i) \<mapsto> (minset - {i, i + 1}) \<union> ({i, i + 1} - minset)))
                ((invti - 1, i) \<mapsto> (maxset - {10 - i, 10 - i - 1}) \<union> ({10 - i, 10 - i - 1} - maxset))
         else m2)"

definition lookup :: "(int \<times> int) \<rightharpoonup> int set" where
  "lookup = fold lookup_step [2..9] lookup_init"

subsection \<open>Cells\<close>

text \<open>
  A \<^verbatim>\<open>Cell\<close> object is its candidate set. The methods that change the set in place and return
  whether its length changed return the pair of that flag and the new set.
\<close>

definition is_unique :: "int set \<Rightarrow> bool" where
  "is_unique c = (card c = 1)"

definition unique_value :: "int set \<Rightarrow> error + int" where
  "unique_value c = (if is_unique c then Inr (the_elem c) else Inl AssertionError)"

definition substract :: "int set \<Rightarrow> int set \<Rightarrow> bool \<times> int set" where
  "substract c substract_set = (card c \<noteq> card (c - substract_set), c - substract_set)"

definition intersect :: "int set \<Rightarrow> int set \<Rightarrow> bool \<times> int set" where
  "intersect c intersect_set = (card c \<noteq> card (c \<inter> intersect_set), c \<inter> intersect_set)"

subsection \<open>Range narrowing\<close>

text \<open>
  The loop \<^verbatim>\<open>for cell in cells: changed = cell.intersect(s) or changed\<close> over a tuple of
  distinct cell objects: the flag and the new candidate sets, in the order of the tuple.
\<close>

fun intersect_all :: "int set \<Rightarrow> int set list \<Rightarrow> bool \<Rightarrow> bool \<times> int set list" where
  "intersect_all s [] changed = (changed, [])"
| "intersect_all s (c # cs) changed =
     (let (ch, c') = intersect c s;
          (changed', cs') = intersect_all s cs (ch \<or> changed)
      in (changed', c' # cs'))"

text \<open>
  \<^verbatim>\<open>constrain_cells_sum(n, cells)\<close>: the assertion comes first; a missing key of the table is
  caught and skips the first loop only.
\<close>

definition constrain_cells_sum :: "int \<Rightarrow> int set list \<Rightarrow> error + (bool \<times> int set list)" where
  "constrain_cells_sum n cells =
     (let count = int (length cells) in
      if \<not> (n \<ge> triangular count \<and> n \<le> triangular_prime count 10) then Inl AssertionError
      else
        let (changed1, cells1) =
              (case lookup (n, count) of
                 Some summands \<Rightarrow> intersect_all summands cells False
               | None \<Rightarrow> (False, cells));
            cellset_max = (if count > 1 then min (n - triangular (count - 1)) 9 else n);
            cellset_min = (if count > 1 then max (n - triangular_prime (count - 1) 10) 1 else n);
            allowed_range = {cellset_min..cellset_max}
        in Inr (intersect_all allowed_range cells1 changed1))"

subsection \<open>The grid\<close>

text \<open>
  A grid entry is a \<^verbatim>\<open>Cell\<close> or a \<^verbatim>\<open>Clue\<close>. \<^verbatim>\<open>Map\<close> keeps \<^verbatim>\<open>width\<close>, \<^verbatim>\<open>height\<close> and the
  tuple \<^verbatim>\<open>data\<close>; \<^verbatim>\<open>Kakuro\<close> adds no field. Every position of \<^verbatim>\<open>data\<close> holds an object of its
  own, as the loader builds it.
\<close>

datatype entry = is_Cell: Cell (candidates: "int set") | Clue (vertical: int) (horizontal: int)

record kakuro =
  width :: int
  height :: int
  data :: "entry list"

definition cell_at :: "kakuro \<Rightarrow> nat \<Rightarrow> int set" where
  "cell_at g i = candidates (data g ! i)"

definition set_cell :: "kakuro \<Rightarrow> nat \<Rightarrow> int set \<Rightarrow> kakuro" where
  "set_cell g i c = g\<lparr>data := (data g)[i := Cell c]\<rparr>"

text \<open>Writing new candidate sets back to the cells at the given positions, pairwise.\<close>

fun store_cells :: "nat list \<Rightarrow> int set list \<Rightarrow> kakuro \<Rightarrow> kakuro" where
  "store_cells (i # idxs) (c # cs) g = store_cells idxs cs (set_cell g i c)"
| "store_cells _ _ g = g"

subsection \<open>Python slices\<close>

text \<open>
  The positions selected by \<^verbatim>\<open>t[start:stop:step]\<close> on a tuple of length \<open>len\<close>, as CPython
  computes them: a negative bound counts from the end, a bound out of range is clipped (to \<open>-1\<close>
  or \<open>len - 1\<close> when the step is negative, to \<open>0\<close> or \<open>len\<close> otherwise), an omitted stop is the end
  in the direction of the step, and a step of zero raises \<^verbatim>\<open>ValueError\<close>.
\<close>

definition adjust_index :: "int \<Rightarrow> int \<Rightarrow> int \<Rightarrow> int" where
  "adjust_index len step i =
     (if i < 0 then (if i + len < 0 then (if step < 0 then - 1 else 0) else i + len)
      else if i \<ge> len then (if step < 0 then len - 1 else len)
      else i)"

definition slice_indices :: "nat \<Rightarrow> int \<Rightarrow> int option \<Rightarrow> int \<Rightarrow> error + nat list" where
  "slice_indices len start stop step =
     (if step = 0 then Inl ValueError
      else
        let l = int len;
            s = adjust_index l step start;
            e = (case stop of
                   None \<Rightarrow> (if step < 0 then - 1 else l)
                 | Some st \<Rightarrow> adjust_index l step st);
            cnt = (if step < 0
                   then (if e < s then (s - e - 1) div (- step) + 1 else 0)
                   else (if s < e then (e - s - 1) div step + 1 else 0))
        in Inr (map (\<lambda>k. nat (s + int k * step)) [0..<nat cnt]))"

subsection \<open>Map: coordinates and directional traversal\<close>

definition idx2row :: "kakuro \<Rightarrow> nat \<Rightarrow> error + int" where
  "idx2row g idx =
     (if int idx < width g * height g then Inr (int idx div width g) else Inl AssertionError)"

definition idx2col :: "kakuro \<Rightarrow> nat \<Rightarrow> error + int" where
  "idx2col g idx =
     (if int idx < width g * height g then Inr (int idx mod width g) else Inl AssertionError)"

definition items_south_of :: "kakuro \<Rightarrow> int \<Rightarrow> int \<Rightarrow> error + nat list" where
  "items_south_of g row column =
     (if row < height g \<and> column < width g
      then slice_indices (length (data g)) ((row + 1) * width g + column) None (width g)
      else Inl AssertionError)"

definition items_north_of :: "kakuro \<Rightarrow> int \<Rightarrow> int \<Rightarrow> error + nat list" where
  "items_north_of g row column =
     (if row < height g \<and> column < width g
      then slice_indices (length (data g)) ((row - 1) * width g + column) (Some 0) (- width g)
      else Inl AssertionError)"

definition items_west_of :: "kakuro \<Rightarrow> int \<Rightarrow> int \<Rightarrow> error + nat list" where
  "items_west_of g row column =
     (if row < height g \<and> column < width g
      then slice_indices (length (data g)) (row * width g + column - 1) (Some (row * width g - 1)) (- 1)
      else Inl AssertionError)"

definition items_east_of :: "kakuro \<Rightarrow> int \<Rightarrow> int \<Rightarrow> error + nat list" where
  "items_east_of g row column =
     (if row < height g \<and> column < width g
      then slice_indices (length (data g)) (row * width g + column + 1) (Some ((row + 1) * width g)) 1
      else Inl AssertionError)"

text \<open>\<^verbatim>\<open>Cell.contiguous\<close>: the entries of a traversal up to the first one that is not a cell.\<close>

definition contiguous :: "kakuro \<Rightarrow> nat list \<Rightarrow> nat list" where
  "contiguous g idxs = takeWhile (\<lambda>i. is_Cell (data g ! i)) idxs"

text \<open>
  What the generators \<^verbatim>\<open>clues()\<close> and \<^verbatim>\<open>cells()\<close> compute when they reach an entry of their
  kind at position \<open>idx\<close>: its row and its column, each behind its assertion.
\<close>

definition row_col :: "kakuro \<Rightarrow> nat \<Rightarrow> error + (int \<times> int)" where
  "row_col g idx = ebind (idx2row g idx) (\<lambda>row. ebind (idx2col g idx) (\<lambda>column. Inr (row, column)))"

definition unique_values :: "kakuro \<Rightarrow> nat list \<Rightarrow> error + int list" where
  "unique_values g idxs = emap (\<lambda>i. unique_value (cell_at g i)) idxs"

subsection \<open>The solved-check\<close>

definition clue_solved :: "kakuro \<Rightarrow> nat \<Rightarrow> int \<Rightarrow> int \<Rightarrow> error + bool" where
  "clue_solved g idx v h =
     ebind (row_col g idx) (\<lambda>(row, column).
     ebind (items_south_of g row column) (\<lambda>south.
     ebind (unique_values g (contiguous g south)) (\<lambda>vneighbors.
     ebind (items_east_of g row column) (\<lambda>east.
     ebind (unique_values g (contiguous g east)) (\<lambda>hneighbors.
       if length hneighbors \<noteq> card (set hneighbors) \<or> length vneighbors \<noteq> card (set vneighbors)
       then Inr False
       else if v \<noteq> sum_list vneighbors \<or> h \<noteq> sum_list hneighbors then Inr False
       else Inr True)))))"

fun is_solved_clues :: "kakuro \<Rightarrow> nat list \<Rightarrow> error + bool" where
  "is_solved_clues g [] = Inr True"
| "is_solved_clues g (idx # rest) =
     (case data g ! idx of
        Cell _ \<Rightarrow> is_solved_clues g rest
      | Clue v h \<Rightarrow>
          (case clue_solved g idx v h of
             Inl e \<Rightarrow> Inl e
           | Inr ok \<Rightarrow> if ok then is_solved_clues g rest else Inr False))"

definition all_unique :: "kakuro \<Rightarrow> bool" where
  "all_unique g = list_all (\<lambda>element. is_Cell element \<longrightarrow> is_unique (candidates element)) (data g)"

definition is_solved :: "kakuro \<Rightarrow> error + bool" where
  "is_solved g =
     (if \<not> all_unique g then Inr False else is_solved_clues g [0..<length (data g)])"

subsection \<open>Finding the clues of a cell\<close>

definition clues_for :: "kakuro \<Rightarrow> int \<Rightarrow> int \<Rightarrow> error + (nat \<times> nat)" where
  "clues_for g row column =
     ebind (items_north_of g row column) (\<lambda>north.
     ebind (items_west_of g row column) (\<lambda>west.
       case dropWhile (\<lambda>i. is_Cell (data g ! i)) north of
         [] \<Rightarrow> Inl StopIteration
       | cv # _ \<Rightarrow>
           (case dropWhile (\<lambda>i. is_Cell (data g ! i)) west of
              [] \<Rightarrow> Inl StopIteration
            | ch # _ \<Rightarrow> Inr (cv, ch))))"

subsection \<open>Pass A: elimination from resolved cells\<close>

text \<open>The loop \<^verbatim>\<open>for p in pending: changed = p.substract(substract_set) or changed\<close>.\<close>

fun substract_all :: "int set \<Rightarrow> int set list \<Rightarrow> bool \<Rightarrow> bool \<times> int set list" where
  "substract_all s [] changed = (changed, [])"
| "substract_all s (c # cs) changed =
     (let (ch, c') = substract c s;
          (changed', cs') = substract_all s cs (ch \<or> changed)
      in (changed', c' # cs'))"

text \<open>
  One turn of the inner loop of \<^verbatim>\<open>discard_from_uniques\<close>: the target \<open>n\<close> of one direction of a
  clue and the traversal \<open>cells\<close> in that direction. The result is the exception raised or the new
  value of \<^verbatim>\<open>changed\<close>, with the grid as it is at that moment.
\<close>

definition uniques_run :: "int \<Rightarrow> nat list \<Rightarrow> bool \<Rightarrow> kakuro \<Rightarrow> (error + bool) \<times> kakuro" where
  "uniques_run n cells changed g =
     (if n = 0 then (Inr changed, g)
      else
        let strip = contiguous g cells;
            pending = filter (\<lambda>i. \<not> is_unique (cell_at g i)) strip;
            uniques = filter (\<lambda>i. is_unique (cell_at g i)) strip
        in case unique_values g uniques of
             Inl e \<Rightarrow> (Inl e, g)
           | Inr vals \<Rightarrow>
               let substract_set = set vals in
               if card substract_set \<noteq> length uniques then (Inl AssertionError, g)
               else
                 let (changed1, cs1) = substract_all substract_set (map (cell_at g) pending) changed;
                     g1 = store_cells pending cs1 g;
                     n' = n - \<Sum> substract_set
                 in if n' \<noteq> 0
                    then (case constrain_cells_sum n' (map (cell_at g1) pending) of
                            Inl e \<Rightarrow> (Inl e, g1)
                          | Inr (changed2, cs2) \<Rightarrow> (Inr (changed2 \<or> changed1), store_cells pending cs2 g1))
                    else (Inr changed1, g1))"

text \<open>
  What the body of a loop over \<^verbatim>\<open>self.clues()\<close> has in hand before it looks at a direction:
  the row and column the generator yields and the two traversals, south and east.
\<close>

definition clue_strips :: "kakuro \<Rightarrow> nat \<Rightarrow> error + (nat list \<times> nat list)" where
  "clue_strips g idx =
     ebind (row_col g idx) (\<lambda>(row, column).
     ebind (items_south_of g row column) (\<lambda>vcells.
     ebind (items_east_of g row column) (\<lambda>hcells. Inr (vcells, hcells))))"

fun discard_from_uniques_loop :: "nat list \<Rightarrow> bool \<Rightarrow> kakuro \<Rightarrow> (error + bool) \<times> kakuro" where
  "discard_from_uniques_loop [] changed g = (Inr changed, g)"
| "discard_from_uniques_loop (idx # rest) changed g =
     (case data g ! idx of
        Cell _ \<Rightarrow> discard_from_uniques_loop rest changed g
      | Clue v h \<Rightarrow>
          (case clue_strips g idx of
             Inl e \<Rightarrow> (Inl e, g)
           | Inr (vcells, hcells) \<Rightarrow>
               (case uniques_run v vcells changed g of
                  (Inl e, g1) \<Rightarrow> (Inl e, g1)
                | (Inr changed1, g1) \<Rightarrow>
                    (case uniques_run h hcells changed1 g1 of
                       (Inl e, g2) \<Rightarrow> (Inl e, g2)
                     | (Inr changed2, g2) \<Rightarrow> discard_from_uniques_loop rest changed2 g2))))"

definition discard_from_uniques :: "kakuro \<Rightarrow> (error + bool) \<times> kakuro" where
  "discard_from_uniques g = discard_from_uniques_loop [0..<length (data g)] False g"

subsection \<open>Pass B: feasibility of each candidate within its run\<close>

definition valid_combination :: "int list \<Rightarrow> bool" where
  "valid_combination xs = (length xs = card (set xs) \<and> list_all (\<lambda>x. x \<ge> 1 \<and> x \<le> 9) xs)"

text \<open>
  Python iterates a set in an order of its own. Where the source iterates the candidate set of the
  cell at position \<open>i\<close>, the model iterates \<open>enum i c\<close>, \<open>c\<close> being that set; where it iterates the
  set \<^verbatim>\<open>pending\<close> of cell objects, the model iterates \<open>cell_order pending\<close>. Both are parameters.

  \<open>feasible\<close> is the \<^verbatim>\<open>any(...)\<close> of \<^verbatim>\<open>discard_from_single_clues\<close> for one candidate \<open>x\<close>.
\<close>

definition feasible :: "(nat \<Rightarrow> int set \<Rightarrow> int list) \<Rightarrow> kakuro \<Rightarrow> int \<Rightarrow> nat list \<Rightarrow> int \<Rightarrow> bool" where
  "feasible enum g n neighbors x =
     list_ex (\<lambda>p. n = sum_list p + x)
       (filter (\<lambda>p. valid_combination (x # p))
          (product_lists (map (\<lambda>j. enum j (cell_at g j)) neighbors)))"

fun single_clue_cells ::
  "(nat \<Rightarrow> int set \<Rightarrow> int list) \<Rightarrow> int \<Rightarrow> nat list \<Rightarrow> nat list \<Rightarrow> bool \<Rightarrow> kakuro \<Rightarrow> bool \<times> kakuro" where
  "single_clue_cells enum n pending [] changed g = (changed, g)"
| "single_clue_cells enum n pending (cell # rest) changed g =
     (let neighbors = removeAll cell pending;
          (ch, c') = substract (cell_at g cell) {x \<in> cell_at g cell. \<not> feasible enum g n neighbors x}
      in single_clue_cells enum n pending rest (ch \<or> changed) (set_cell g cell c'))"

definition single_clue_run ::
  "(nat \<Rightarrow> int set \<Rightarrow> int list) \<Rightarrow> (nat list \<Rightarrow> nat list) \<Rightarrow> int \<Rightarrow> nat list \<Rightarrow> bool \<Rightarrow> kakuro
     \<Rightarrow> (error + bool) \<times> kakuro" where
  "single_clue_run enum cell_order n cells changed g =
     (if n = 0 then (Inr changed, g)
      else
        let strip = contiguous g cells;
            pending = filter (\<lambda>i. \<not> is_unique (cell_at g i)) strip;
            uniques = filter (\<lambda>i. is_unique (cell_at g i)) strip
        in case unique_values g uniques of
             Inl e \<Rightarrow> (Inl e, g)
           | Inr vals \<Rightarrow>
               let n' = n - sum_list vals in
               if \<not> (length pending > 0 \<and> n' > 0 \<or> length pending = 0 \<and> n' = 0)
               then (Inl AssertionError, g)
               else if n' = 0 then (Inr changed, g)
               else (case single_clue_cells enum n' pending (cell_order pending) changed g of
                       (changed', g') \<Rightarrow> (Inr changed', g')))"

fun discard_from_single_clues_loop ::
  "(nat \<Rightarrow> int set \<Rightarrow> int list) \<Rightarrow> (nat list \<Rightarrow> nat list) \<Rightarrow> nat list \<Rightarrow> bool \<Rightarrow> kakuro
     \<Rightarrow> (error + bool) \<times> kakuro" where
  "discard_from_single_clues_loop enum cell_order [] changed g = (Inr changed, g)"
| "discard_from_single_clues_loop enum cell_order (idx # rest) changed g =
     (case data g ! idx of
        Cell _ \<Rightarrow> discard_from_single_clues_loop enum cell_order rest changed g
      | Clue v h \<Rightarrow>
          (case clue_strips g idx of
             Inl e \<Rightarrow> (Inl e, g)
           | Inr (vcells, hcells) \<Rightarrow>
               (case single_clue_run enum cell_order v vcells changed g of
                  (Inl e, g1) \<Rightarrow> (Inl e, g1)
                | (Inr changed1, g1) \<Rightarrow>
                    (case single_clue_run enum cell_order h hcells changed1 g1 of
                       (Inl e, g2) \<Rightarrow> (Inl e, g2)
                     | (Inr changed2, g2) \<Rightarrow>
                         discard_from_single_clues_loop enum cell_order rest changed2 g2))))"

definition discard_from_single_clues ::
  "(nat \<Rightarrow> int set \<Rightarrow> int list) \<Rightarrow> (nat list \<Rightarrow> nat list) \<Rightarrow> kakuro \<Rightarrow> (error + bool) \<times> kakuro" where
  "discard_from_single_clues enum cell_order g =
     discard_from_single_clues_loop enum cell_order [0..<length (data g)] False g"

subsection \<open>Search\<close>

text \<open>
  The generator \<^verbatim>\<open>cells()\<close>, consumed whole by \<^verbatim>\<open>crack\<close> before anything is assigned: the
  positions of the cells, or the assertion of \<^verbatim>\<open>idx2row\<close> at the first cell that fails it.
\<close>

definition cells :: "kakuro \<Rightarrow> error + nat list" where
  "cells g =
     emap (\<lambda>idx. ebind (row_col g idx) (\<lambda>_. Inr idx))
       (filter (\<lambda>idx. is_Cell (data g ! idx)) [0..<length (data g)])"

text \<open>\<^verbatim>\<open>for x, cell in zip(combination, pending_cells): cell.candidates = {x}\<close>\<close>

fun assign :: "int list \<Rightarrow> nat list \<Rightarrow> kakuro \<Rightarrow> kakuro" where
  "assign (x # combination) (cell # pending_cells) g = assign combination pending_cells (set_cell g cell {x})"
| "assign _ _ g = g"

fun crack_loop :: "nat list \<Rightarrow> int list list \<Rightarrow> int list list \<Rightarrow> kakuro \<Rightarrow> (error + int list list) \<times> kakuro" where
  "crack_loop pending_cells [] solutions g = (Inr solutions, g)"
| "crack_loop pending_cells (combination # rest) solutions g =
     (let g1 = assign combination pending_cells g in
      case is_solved g1 of
        Inl e \<Rightarrow> (Inl e, g1)
      | Inr ok \<Rightarrow> crack_loop pending_cells rest (if ok then solutions @ [combination] else solutions) g1)"

definition crack :: "(nat \<Rightarrow> int set \<Rightarrow> int list) \<Rightarrow> kakuro \<Rightarrow> (error + bool) \<times> kakuro" where
  "crack enum g =
     (case cells g of
        Inl e \<Rightarrow> (Inl e, g)
      | Inr cs \<Rightarrow>
          let pending_cells = filter (\<lambda>i. \<not> is_unique (cell_at g i)) cs;
              cartesian = product_lists (map (\<lambda>i. enum i (cell_at g i)) pending_cells)
          in case crack_loop pending_cells cartesian [] g of
               (Inl e, g') \<Rightarrow> (Inl e, g')
             | (Inr [], g') \<Rightarrow> (Inr False, g')
             | (Inr (first # _), g') \<Rightarrow> (Inr True, assign first pending_cells g'))"

subsection \<open>Auxiliary notions for stating properties\<close>

text \<open>
  The two sets \<^verbatim>\<open>constrain_cells_sum\<close> intersects every cell with: the summands found in the
  table (every digit when the key is missing) and the range between \<^verbatim>\<open>cellset_min\<close> and
  \<^verbatim>\<open>cellset_max\<close>.
\<close>

definition summands_of :: "int \<Rightarrow> int \<Rightarrow> int set" where
  "summands_of n k = (case lookup (n, k) of Some s \<Rightarrow> s | None \<Rightarrow> UNIV)"

definition allowed_range :: "int \<Rightarrow> int \<Rightarrow> int set" where
  "allowed_range n k =
     {(if k > 1 then max (n - triangular_prime (k - 1) 10) 1 else n) ..
      (if k > 1 then min (n - triangular (k - 1)) 9 else n)}"

text \<open>
  The grid invariant of the data model: the dimensions are counts and \<^verbatim>\<open>data\<close> holds
  \<open>width * height\<close> entries. Python sets are finite; \<open>finite_cells\<close> says so of a grid.
\<close>

definition wf_grid :: "kakuro \<Rightarrow> bool" where
  "wf_grid g = (0 \<le> width g \<and> 0 \<le> height g \<and> int (length (data g)) = width g * height g)"

definition finite_cells :: "kakuro \<Rightarrow> bool" where
  "finite_cells g = (\<forall>element\<in>set (data g). is_Cell element \<longrightarrow> finite (candidates element))"

text \<open>
  \<open>shrinks g g'\<close>: the grid \<open>g'\<close> has the dimensions of \<open>g\<close> and as many entries, every clue of \<open>g\<close>
  is the same clue in \<open>g'\<close>, and every cell of \<open>g\<close> is a cell in \<open>g'\<close> with a subset of its
  candidates.
\<close>

definition shrinks :: "kakuro \<Rightarrow> kakuro \<Rightarrow> bool" where
  "shrinks g g' =
     (width g' = width g \<and> height g' = height g \<and> length (data g') = length (data g)
      \<and> (\<forall>i<length (data g).
            if is_Cell (data g ! i)
            then is_Cell (data g' ! i) \<and> cell_at g' i \<subseteq> cell_at g i
            else data g' ! i = data g ! i))"

text \<open>Some cell of \<open>g'\<close> has strictly fewer candidates than in \<open>g\<close>.\<close>

definition shrank :: "kakuro \<Rightarrow> kakuro \<Rightarrow> bool" where
  "shrank g g' = (\<exists>i<length (data g). is_Cell (data g ! i) \<and> cell_at g' i \<subset> cell_at g i)"

text \<open>
  What a narrowing operation may do to a grid: started with the flag \<open>ch\<close> on the grid \<open>g\<close>, it
  ends with the result \<open>r\<close> (an exception or the new flag, and the grid at that moment); the grid
  has only shrunk, and, the candidate sets being finite, a returned flag is set exactly when it was
  set before or some candidate set is strictly smaller.
\<close>

definition narrows :: "kakuro \<Rightarrow> bool \<Rightarrow> (error + bool) \<times> kakuro \<Rightarrow> bool" where
  "narrows g ch r =
     (shrinks g (snd r)
      \<and> (finite_cells g \<longrightarrow> (\<forall>ch'. fst r = Inr ch' \<longrightarrow> (ch' \<longleftrightarrow> ch \<or> shrank g (snd r)))))"

text \<open>
  An iteration order to run examples with: every candidate set in ascending order, and a set of
  cells in the order of their positions.
\<close>

definition ascending :: "nat \<Rightarrow> int set \<Rightarrow> int list" where
  "ascending i c = sorted_list_of_set c"

definition in_order :: "nat list \<Rightarrow> nat list" where
  "in_order pending = pending"

text \<open>
  The runs of a clue, as the data model describes them. In a grid of \<open>width\<close> columns the entries
  below position \<open>idx\<close> are at \<open>idx + width\<close>, \<open>idx + 2 * width\<close>, ... down to the last row, and the
  entries to its right are the rest of its row; the run is the longest prefix of cells, and its
  values are the resolved digits of those cells.
\<close>

definition south_of :: "kakuro \<Rightarrow> nat \<Rightarrow> nat list" where
  "south_of g idx =
     map (\<lambda>k. idx + (k + 1) * nat (width g)) [0..<nat (height g) - 1 - idx div nat (width g)]"

definition east_of :: "kakuro \<Rightarrow> nat \<Rightarrow> nat list" where
  "east_of g idx = [idx + 1..<(idx div nat (width g) + 1) * nat (width g)]"

definition run_values :: "kakuro \<Rightarrow> nat list \<Rightarrow> int list" where
  "run_values g positions = map (\<lambda>i. the_elem (cell_at g i)) (contiguous g positions)"

definition run_ok :: "kakuro \<Rightarrow> nat list \<Rightarrow> int \<Rightarrow> bool" where
  "run_ok g positions target =
     (distinct (run_values g positions) \<and> sum_list (run_values g positions) = target)"

text \<open>
  The solved grid in the words of the specification: every cell resolved, and the run in each
  direction with a nonzero target has distinct values that add up to the target.
\<close>

definition claimed_solved :: "kakuro \<Rightarrow> bool" where
  "claimed_solved g =
     (all_unique g
      \<and> (\<forall>idx\<in>{0..<length (data g)}. \<not> is_Cell (data g ! idx) \<longrightarrow>
            (vertical (data g ! idx) \<noteq> 0 \<longrightarrow> run_ok g (south_of g idx) (vertical (data g ! idx)))
            \<and> (horizontal (data g ! idx) \<noteq> 0 \<longrightarrow> run_ok g (east_of g idx) (horizontal (data g ! idx)))))"

text \<open>The same with the run of every direction of every clue, a zero target included.\<close>

definition runs_solved :: "kakuro \<Rightarrow> bool" where
  "runs_solved g =
     (all_unique g
      \<and> (\<forall>idx\<in>{0..<length (data g)}. \<not> is_Cell (data g ! idx) \<longrightarrow>
            run_ok g (south_of g idx) (vertical (data g ! idx))
            \<and> run_ok g (east_of g idx) (horizontal (data g ! idx))))"

text \<open>
  The two values \<^verbatim>\<open>crack\<close> computes before its loop, for a grid whose \<^verbatim>\<open>cells()\<close> raises
  nothing: the tuple \<^verbatim>\<open>pending_cells\<close> and the list of the combinations that
  \<^verbatim>\<open>product(*candidates)\<close> yields, in its order (the last position varies fastest).
\<close>

definition pending_cells :: "kakuro \<Rightarrow> nat list" where
  "pending_cells g =
     filter (\<lambda>i. \<not> is_unique (cell_at g i))
       (filter (\<lambda>idx. is_Cell (data g ! idx)) [0..<length (data g)])"

definition combinations :: "(nat \<Rightarrow> int set \<Rightarrow> int list) \<Rightarrow> kakuro \<Rightarrow> int list list" where
  "combinations enum g = product_lists (map (\<lambda>i. enum i (cell_at g i)) (pending_cells g))"

section \<open>Properties of the lookup table\<close>

lemma int_1_9: "{1..9::int} = {1, 2, 3, 4, 5, 6, 7, 8, 9}"
  by auto

lemma int_2_8: "{2..8::int} = {2, 3, 4, 5, 6, 7, 8}"
  by auto

lemma lookup_unfold:
  "lookup = fold lookup_step [2, 3, 4, 5, 6, 7, 8, 9]
     (fold (\<lambda>i m. m((i, 1) \<mapsto> {i})) [1, 2, 3, 4, 5, 6, 7, 8, 9] Map.empty)"
  by (simp add: lookup_def lookup_init_def upto.simps)

lemmas lookup_simps = lookup_unfold lookup_step_def triangular_def triangular_prime_def Let_def

lemma lookup_min_max:
  "\<forall>L\<in>{1..9}. lookup (triangular L, L) = Some {1..L}
      \<and> lookup (triangular_prime L 10, L) = Some {9 - L + 1..9}"
  unfolding int_1_9 by (simp add: lookup_simps)

lemma lookup_near:
  "\<forall>L\<in>{2..8}. lookup (triangular L + 1, L) = Some (({1..L} - {L}) \<union> {L + 1})
      \<and> lookup (triangular_prime L 10 - 1, L) = Some (({9 - L + 1..9} - {10 - L}) \<union> {9 - L})"
  unfolding int_2_8 by (simp add: lookup_simps) auto

lemma lookup_single: "\<forall>S\<in>{1..9}. lookup (S, 1) = Some {S}"
  unfolding int_1_9 by (simp add: lookup_simps)

lemma dom_lookup:
  "dom lookup =
     {(45, 9), (43, 8), (37, 8), (44, 8), (36, 8), (41, 7), (29, 7), (42, 7),
      (28, 7), (38, 6), (22, 6), (39, 6), (21, 6), (34, 5), (16, 5), (35, 5),
      (15, 5), (29, 4), (11, 4), (30, 4), (10, 4), (23, 3), (7, 3), (24, 3),
      (6, 3), (16, 2), (4, 2), (17, 2), (3, 2), (9, 1), (8, 1), (7, 1),
      (6, 1), (5, 1), (4, 1), (3, 1), (2, 1), (1, 1)}"
  by (simp add: lookup_simps)

lemma lookup_only:
  "(S, L) \<in> dom lookup \<Longrightarrow>
     (L = 1 \<and> S \<in> {1..9})
     \<or> (L \<in> {1..9} \<and> (S = triangular L \<or> S = triangular_prime L 10))
     \<or> (L \<in> {2..8} \<and> (S = triangular L + 1 \<or> S = triangular_prime L 10 - 1))"
  unfolding dom_lookup insert_iff empty_iff prod.inject
  by (elim disjE conjE; simp add: triangular_def triangular_prime_def)

text \<open>
  C2. For every run length \<open>L\<close> in 1..9 the table maps \<open>(triangular L, L)\<close> to \<open>{1..L}\<close> and
  \<open>(triangular_prime L, L)\<close> to \<open>{9 - L + 1..9}\<close>; for every \<open>L\<close> in 2..8 it maps
  \<open>(triangular L + 1, L)\<close> to \<open>{1..L}\<close> with \<open>L\<close> replaced by \<open>L + 1\<close> and
  \<open>(triangular_prime L - 1, L)\<close> to \<open>{9 - L + 1..9}\<close> with \<open>10 - L\<close> replaced by \<open>9 - L\<close>; the
  entries of length 1 are \<open>(S, 1) \<mapsto> {S}\<close> for \<open>S\<close> in 1..9; and no other key is in the table.
\<close>

theorem lookup_table:
  "(\<forall>L\<in>{1..9}. lookup (triangular L, L) = Some {1..L}
       \<and> lookup (triangular_prime L 10, L) = Some {9 - L + 1..9})
   \<and> (\<forall>L\<in>{2..8}. lookup (triangular L + 1, L) = Some (({1..L} - {L}) \<union> {L + 1})
       \<and> lookup (triangular_prime L 10 - 1, L) = Some (({9 - L + 1..9} - {10 - L}) \<union> {9 - L}))
   \<and> (\<forall>S\<in>{1..9}. lookup (S, 1) = Some {S})
   \<and> (\<forall>S L. (S, L) \<in> dom lookup \<longrightarrow>
         (L = 1 \<and> S \<in> {1..9})
         \<or> (L \<in> {1..9} \<and> (S = triangular L \<or> S = triangular_prime L 10))
         \<or> (L \<in> {2..8} \<and> (S = triangular L + 1 \<or> S = triangular_prime L 10 - 1)))"
  using lookup_min_max lookup_near lookup_single lookup_only by blast

theorem lookup_table_witness:
  "lookup (3, 2) = Some {1, 2} \<and> lookup (17, 2) = Some {8, 9}
   \<and> lookup (4, 2) = Some {1, 3} \<and> lookup (16, 2) = Some {7, 9}
   \<and> lookup (5, 1) = Some {5} \<and> lookup (5, 2) = None"
proof -
  have a: "lookup (triangular 2, 2) = Some {1..2}
      \<and> lookup (triangular_prime 2 10, 2) = Some {9 - 2 + 1..9}"
    using lookup_table by simp
  have b: "lookup (triangular 2 + 1, 2) = Some (({1..2} - {2}) \<union> {2 + 1})
      \<and> lookup (triangular_prime 2 10 - 1, 2) = Some (({9 - 2 + 1..9} - {10 - 2}) \<union> {9 - 2})"
    using lookup_table by simp
  have c: "lookup (5, 1) = Some {5}"
    using lookup_table by simp
  have "(5, 2) \<notin> dom lookup"
    using lookup_table [THEN conjunct2, THEN conjunct2, THEN conjunct2, rule_format, of 5 2]
    by (auto simp: triangular_def triangular_prime_def)
  then have d: "lookup (5, 2) = None"
    by (simp add: domIff)
  have e: "{1..2::int} = {1, 2}" "{8..9::int} = {8, 9}"
    by auto
  from a b c d show ?thesis
    by (auto simp: triangular_def triangular_prime_def e)
qed

section \<open>Range narrowing\<close>

lemma intersect_all_eq:
  "intersect_all s cs changed =
     (changed \<or> (\<exists>c\<in>set cs. card c \<noteq> card (c \<inter> s)), map (\<lambda>c. c \<inter> s) cs)"
  by (induction cs arbitrary: changed) (auto simp: intersect_def)

lemma substract_all_eq:
  "substract_all s cs changed =
     (changed \<or> (\<exists>c\<in>set cs. card c \<noteq> card (c - s)), map (\<lambda>c. c - s) cs)"
  by (induction cs arbitrary: changed) (auto simp: substract_def)

lemma constrain_cells_sum_fails:
  "\<not> (triangular (int (length cs)) \<le> n \<and> n \<le> triangular_prime (int (length cs)) 10)
     \<Longrightarrow> constrain_cells_sum n cs = Inl AssertionError"
  by (auto simp: constrain_cells_sum_def)

lemma constrain_cells_sum_eq:
  assumes "triangular (int (length cs)) \<le> n" "n \<le> triangular_prime (int (length cs)) 10"
  shows "constrain_cells_sum n cs =
     Inr ((\<exists>c\<in>set cs. card c \<noteq> card (c \<inter> summands_of n (int (length cs)))
              \<or> card (c \<inter> summands_of n (int (length cs)))
                  \<noteq> card (c \<inter> summands_of n (int (length cs)) \<inter> allowed_range n (int (length cs)))),
          map (\<lambda>c. c \<inter> summands_of n (int (length cs)) \<inter> allowed_range n (int (length cs))) cs)"
  using assms
  by (auto simp: constrain_cells_sum_def intersect_all_eq summands_of_def allowed_range_def Let_def
      split: option.splits)

lemma lookup_17_2: "lookup (17, 2) = Some {8, 9}"
  by (simp add: lookup_simps) auto

text \<open>
  C1, as amended. A call with more than one cell that passes the assertion intersects every cell
  with the range from \<open>max (n - triangular' (k - 1)) 1\<close> to \<open>min (n - triangular (k - 1)) 9\<close>,
  after the table's summands when the key is there and in any case; here
  \<open>triangular' j = 10 * j - triangular j\<close> (not \<open>9 * j - triangular j\<close>).
\<close>

theorem constrain_cells_sum_range:
  assumes "1 < length cs"
    and "triangular (int (length cs)) \<le> n"
    and "n \<le> triangular_prime (int (length cs)) 10"
  shows "\<exists>changed. constrain_cells_sum n cs =
     Inr (changed,
          map (\<lambda>c. (case lookup (n, int (length cs)) of Some summands \<Rightarrow> c \<inter> summands | None \<Rightarrow> c)
                 \<inter> {max (n - (10 * (int (length cs) - 1) - triangular (int (length cs) - 1))) 1 ..
                     min (n - triangular (int (length cs) - 1)) 9}) cs)"
  using assms
  by (auto simp: constrain_cells_sum_eq summands_of_def allowed_range_def triangular_prime_def
      split: option.splits)

theorem constrain_cells_sum_range_witness:
  "\<exists>changed. constrain_cells_sum 17 [{1..9}, {1..9}] = Inr (changed, [{8, 9}, {8, 9}])"
  using constrain_cells_sum_range [of "[{1..9}, {1..9}]" 17]
  by (simp add: triangular_def triangular_prime_def lookup_17_2)

text \<open>
  C1 as the claim words it, with \<open>triangular' j = 9 * j - triangular j\<close>, fails for two open cells
  and the target 17: the claimed range is \<open>{9}\<close>, the cells keep 8 and 9.
\<close>

theorem constrain_cells_sum_range_counterexample:
  "constrain_cells_sum 17 [{1..9}, {1..9}] = Inr (True, [{8, 9}, {8, 9}])
   \<and> \<not> {8, 9} \<subseteq> {max (17 - (9 * 1 - triangular 1)) 1 .. min (17 - triangular 1) 9}"
  by (simp add: constrain_cells_sum_def triangular_def triangular_prime_def lookup_17_2
      intersect_def Let_def)

section \<open>The feasibility assertion\<close>

lemmas grid_eval = row_col_def idx2row_def idx2col_def ebind_def items_south_of_def
  items_east_of_def items_north_of_def items_west_of_def slice_indices_def adjust_index_def
  contiguous_def unique_values_def unique_value_def cell_at_def set_cell_def clue_strips_def Let_def

lemma two_open_cells_row:
  assumes "\<not> is_unique c1" "\<not> is_unique c2"
  shows "discard_from_uniques \<lparr>width = 3, height = 1, data = [Clue 0 1, Cell c1, Cell c2]\<rparr>
     = (Inl AssertionError, \<lparr>width = 3, height = 1, data = [Clue 0 1, Cell c1, Cell c2]\<rparr>)"
  using assms
  by (simp add: discard_from_uniques_def uniques_run_def grid_eval upt_rec substract_all_eq
      constrain_cells_sum_def triangular_def triangular_prime_def)

lemma two_open_cells_column:
  assumes "\<not> is_unique c1" "\<not> is_unique c2"
  shows "discard_from_uniques \<lparr>width = 1, height = 3, data = [Clue 1 0, Cell c1, Cell c2]\<rparr>
     = (Inl AssertionError, \<lparr>width = 1, height = 3, data = [Clue 1 0, Cell c1, Cell c2]\<rparr>)"
  using assms
  by (simp add: discard_from_uniques_def uniques_run_def grid_eval upt_rec substract_all_eq
      constrain_cells_sum_def triangular_def triangular_prime_def)

text \<open>
  C5. \<^verbatim>\<open>constrain_cells_sum\<close> raises the assertion exactly when the target is outside
  \<open>triangular k .. triangular' k\<close> for its \<open>k\<close> cells, and then returns no new candidate set: the
  assertion is its first statement. A grid that is one run of two unresolved cells with target 1,
  laid out as a row or as a column, makes Pass A raise that assertion and leaves the grid as it was.
\<close>

theorem feasibility_assertion:
  "(constrain_cells_sum n cs = Inl AssertionError
      \<longleftrightarrow> \<not> (triangular (int (length cs)) \<le> n \<and> n \<le> triangular_prime (int (length cs)) 10))
   \<and> (\<not> is_unique c1 \<and> \<not> is_unique c2 \<longrightarrow>
        discard_from_uniques \<lparr>width = 3, height = 1, data = [Clue 0 1, Cell c1, Cell c2]\<rparr>
          = (Inl AssertionError, \<lparr>width = 3, height = 1, data = [Clue 0 1, Cell c1, Cell c2]\<rparr>)
        \<and> discard_from_uniques \<lparr>width = 1, height = 3, data = [Clue 1 0, Cell c1, Cell c2]\<rparr>
          = (Inl AssertionError, \<lparr>width = 1, height = 3, data = [Clue 1 0, Cell c1, Cell c2]\<rparr>))"
proof -
  have "constrain_cells_sum n cs = Inl AssertionError
      \<longleftrightarrow> \<not> (triangular (int (length cs)) \<le> n \<and> n \<le> triangular_prime (int (length cs)) 10)"
    using constrain_cells_sum_fails [of cs n] constrain_cells_sum_eq [of cs n] by auto
  then show ?thesis
    using two_open_cells_row [of c1 c2] two_open_cells_column [of c1 c2] by blast
qed

theorem feasibility_assertion_witness:
  "constrain_cells_sum 1 [{1..9}, {1..9}] = Inl AssertionError
   \<and> constrain_cells_sum 3 [{1..9}, {1..9}] \<noteq> Inl AssertionError
   \<and> discard_from_uniques \<lparr>width = 3, height = 1, data = [Clue 0 1, Cell {1..9}, Cell {1..9}]\<rparr>
       = (Inl AssertionError, \<lparr>width = 3, height = 1, data = [Clue 0 1, Cell {1..9}, Cell {1..9}]\<rparr>)"
  using feasibility_assertion [of 1 "[{1..9}, {1..9}]" "{1..9}" "{1..9}"]
    feasibility_assertion [of 3 "[{1..9}, {1..9}]" "{1..9}" "{1..9}"]
  by (simp add: triangular_def triangular_prime_def is_unique_def)

section \<open>Slices select positions of the tuple, each once\<close>

lemma prog_up:
  fixes s e l step :: int
  assumes "0 < step" "s < e" "0 \<le> s" "e \<le> l" "int k < (e - s - 1) div step + 1"
  shows "0 \<le> s + int k * step \<and> s + int k * step < l"
proof -
  have "int k \<le> (e - s - 1) div step" using assms by simp
  then have "int k * step \<le> ((e - s - 1) div step) * step"
    using assms(1) by (simp add: mult_right_mono)
  also have "\<dots> \<le> e - s - 1"
    using assms(1) by (metis div_mult_mod_eq pos_mod_sign add_increasing2 order_refl)
  finally have "int k * step \<le> e - s - 1" .
  moreover have "0 \<le> int k * step" using assms(1) by simp
  ultimately show ?thesis using assms by linarith
qed

lemma prog_down:
  fixes s e l step :: int
  assumes "step < 0" "e < s" "- 1 \<le> e" "s \<le> l - 1" "int k < (s - e - 1) div (- step) + 1"
  shows "0 \<le> s + int k * step \<and> s + int k * step < l"
proof -
  have "int k \<le> (s - e - 1) div (- step)" using assms by simp
  then have "int k * (- step) \<le> ((s - e - 1) div (- step)) * (- step)"
    using assms(1) by (simp add: mult_right_mono)
  also have "\<dots> \<le> s - e - 1"
    using assms(1) by (metis div_mult_mod_eq pos_mod_sign add_increasing2 order_refl neg_0_less_iff_less)
  finally have "int k * (- step) \<le> s - e - 1" .
  moreover have "int k * step \<le> 0" using assms(1) by (simp add: mult_nonneg_nonpos)
  ultimately show ?thesis using assms by simp
qed

lemma adjust_index_range:
  "0 \<le> l \<Longrightarrow> 0 < step \<Longrightarrow> 0 \<le> adjust_index l step i \<and> adjust_index l step i \<le> l"
  "0 \<le> l \<Longrightarrow> step < 0 \<Longrightarrow> - 1 \<le> adjust_index l step i \<and> adjust_index l step i \<le> l - 1"
  by (auto simp: adjust_index_def)

lemma slice_indices_prog:
  assumes "slice_indices len start stop step = Inr idxs"
  shows "\<exists>s cnt. idxs = map (\<lambda>k. nat (s + int k * step)) [0..<cnt] \<and> step \<noteq> 0
            \<and> (\<forall>k<cnt. 0 \<le> s + int k * step \<and> s + int k * step < int len)"
proof -
  from assms have nz: "step \<noteq> 0" by (auto simp: slice_indices_def split: if_splits)
  define l where "l = int len"
  define s where "s = adjust_index l step start"
  define e where "e = (case stop of None \<Rightarrow> (if step < 0 then - 1 else l) | Some st \<Rightarrow> adjust_index l step st)"
  define cnt where "cnt = (if step < 0
                   then (if e < s then (s - e - 1) div (- step) + 1 else 0)
                   else (if s < e then (e - s - 1) div step + 1 else 0))"
  have idxs: "idxs = map (\<lambda>k. nat (s + int k * step)) [0..<nat cnt]"
    using assms nz unfolding slice_indices_def Let_def l_def s_def e_def cnt_def
    by (simp split: if_splits)
  have l0: "0 \<le> l" by (simp add: l_def)
  have "0 \<le> s + int k * step \<and> s + int k * step < l" if k: "k < nat cnt" for k
  proof (cases "step < 0")
    case True
    with k have es: "e < s" and kk: "int k < (s - e - 1) div (- step) + 1"
      by (auto simp: cnt_def split: if_splits)
    have "- 1 \<le> e" using adjust_index_range(2) [OF l0 True] True by (auto simp: e_def split: option.splits)
    moreover have "s \<le> l - 1" using adjust_index_range(2) [OF l0 True] by (simp add: s_def)
    ultimately show ?thesis using prog_down [OF True es _ _ kk] by simp
  next
    case False
    with nz have pos: "0 < step" by simp
    with k have es: "s < e" and kk: "int k < (e - s - 1) div step + 1"
      by (auto simp: cnt_def split: if_splits)
    have "e \<le> l" using adjust_index_range(1) [OF l0 pos] pos by (auto simp: e_def split: option.splits)
    moreover have "0 \<le> s" using adjust_index_range(1) [OF l0 pos] by (simp add: s_def)
    ultimately show ?thesis using prog_up [OF pos es _ _ kk] by simp
  qed
  with idxs nz show ?thesis unfolding l_def by blast
qed

lemma slice_indices_in_range:
  assumes "slice_indices len start stop step = Inr idxs"
  shows "\<forall>i\<in>set idxs. i < len"
proof -
  from slice_indices_prog [OF assms] obtain s cnt where
    idxs: "idxs = map (\<lambda>k. nat (s + int k * step)) [0..<cnt]"
    and b: "\<forall>k<cnt. 0 \<le> s + int k * step \<and> s + int k * step < int len" by blast
  show ?thesis unfolding idxs using b by auto
qed

lemma slice_indices_distinct:
  assumes "slice_indices len start stop step = Inr idxs"
  shows "distinct idxs"
proof -
  from slice_indices_prog [OF assms] obtain s cnt where
    idxs: "idxs = map (\<lambda>k. nat (s + int k * step)) [0..<cnt]" and nz: "step \<noteq> 0"
    and b: "\<forall>k<cnt. 0 \<le> s + int k * step \<and> s + int k * step < int len" by blast
  have "inj_on (\<lambda>k. nat (s + int k * step)) {0..<cnt}"
  proof (rule inj_onI)
    fix x y assume "x \<in> {0..<cnt}" "y \<in> {0..<cnt}" and eq: "nat (s + int x * step) = nat (s + int y * step)"
    then have "s + int x * step = s + int y * step" using b by (metis atLeastLessThan_iff eq_nat_nat_iff)
    then show "x = y" using nz by simp
  qed
  then show ?thesis unfolding idxs by (simp add: distinct_map)
qed

section \<open>Updating cells in place\<close>

lemma set_cell_simps [simp]:
  "width (set_cell g i c) = width g" "height (set_cell g i c) = height g"
  "length (data (set_cell g i c)) = length (data g)"
  by (simp_all add: set_cell_def)

lemma set_cell_nth:
  "data (set_cell g i c) ! j = (if j = i \<and> i < length (data g) then Cell c else data g ! j)"
  by (auto simp: set_cell_def nth_list_update list_update_beyond)

lemma store_cells_dims [simp]:
  "width (store_cells idxs cs g) = width g" "height (store_cells idxs cs g) = height g"
  "length (data (store_cells idxs cs g)) = length (data g)"
  by (induction idxs cs g rule: store_cells.induct) simp_all

lemma store_cells_other:
  "j \<notin> set idxs \<Longrightarrow> data (store_cells idxs cs g) ! j = data g ! j"
  by (induction idxs cs g rule: store_cells.induct) (auto simp: set_cell_nth)

lemma store_cells_nth:
  "distinct idxs \<Longrightarrow> length cs = length idxs \<Longrightarrow> k < length idxs \<Longrightarrow> idxs ! k < length (data g)
     \<Longrightarrow> data (store_cells idxs cs g) ! (idxs ! k) = Cell (cs ! k)"
proof (induction idxs cs g arbitrary: k rule: store_cells.induct)
  case (1 i idxs c cs g)
  show ?case
  proof (cases k)
    case 0
    with 1 show ?thesis by (simp add: store_cells_other set_cell_nth)
  next
    case (Suc k')
    with 1 show ?thesis by simp
  qed
qed simp_all

lemma store_cells_read:
  assumes "distinct idxs" "length cs = length idxs" "\<forall>i\<in>set idxs. i < length (data g)"
  shows "map (cell_at (store_cells idxs cs g)) idxs = cs"
  using assms by (auto simp: list_eq_iff_nth_eq cell_at_def store_cells_nth)

lemma shrinks_refl [simp]: "shrinks g g"
  by (simp add: shrinks_def)

lemma shrinks_trans: "shrinks g g' \<Longrightarrow> shrinks g' g'' \<Longrightarrow> shrinks g g''"
  unfolding shrinks_def by (auto split: if_splits)

lemma shrinks_finite: "shrinks g g' \<Longrightarrow> finite_cells g \<Longrightarrow> finite_cells g'"
  unfolding shrinks_def finite_cells_def cell_at_def
  by (metis finite_subset in_set_conv_nth)

lemma shrinks_data_neq:
  assumes "shrinks g g'"
  shows "data g' \<noteq> data g \<longleftrightarrow> shrank g g'"
proof
  assume "data g' \<noteq> data g"
  with assms obtain i where i: "i < length (data g)" "data g' ! i \<noteq> data g ! i"
    by (auto simp: shrinks_def list_eq_iff_nth_eq)
  with assms have "is_Cell (data g ! i)" "is_Cell (data g' ! i)" "cell_at g' i \<subseteq> cell_at g i"
    by (auto simp: shrinks_def split: if_splits)
  with i show "shrank g g'"
    unfolding shrank_def cell_at_def by (metis entry.expand psubsetI)
next
  assume "shrank g g'"
  then show "data g' \<noteq> data g" by (auto simp: shrank_def cell_at_def)
qed

lemma shrank_trans:
  assumes "shrinks g g'" "shrinks g' g''"
  shows "shrank g g'' \<longleftrightarrow> shrank g g' \<or> shrank g' g''"
proof -
  have len: "length (data g') = length (data g)" using assms by (simp add: shrinks_def)
  have a: "is_Cell (data g ! i) \<Longrightarrow> is_Cell (data g' ! i) \<and> cell_at g' i \<subseteq> cell_at g i" if "i < length (data g)" for i
    using assms(1) that by (auto simp: shrinks_def split: if_splits)
  have b: "is_Cell (data g' ! i) \<Longrightarrow> cell_at g'' i \<subseteq> cell_at g' i" if "i < length (data g)" for i
    using assms(2) that len by (auto simp: shrinks_def split: if_splits)
  have c: "\<not> is_Cell (data g ! i) \<Longrightarrow> \<not> is_Cell (data g' ! i)" if "i < length (data g)" for i
    using assms(1) that by (auto simp: shrinks_def split: if_splits)
  show ?thesis
  proof
    assume "shrank g g''"
    then obtain i where i: "i < length (data g)" "is_Cell (data g ! i)" "cell_at g'' i \<subset> cell_at g i"
      by (auto simp: shrank_def)
    show "shrank g g' \<or> shrank g' g''"
    proof (cases "cell_at g' i = cell_at g i")
      case True
      with i a [of i] have "is_Cell (data g' ! i) \<and> cell_at g'' i \<subset> cell_at g' i" by simp
      with i(1) have "shrank g' g''" unfolding shrank_def len by blast
      then show ?thesis ..
    next
      case False
      with i a [of i] have "cell_at g' i \<subset> cell_at g i" by blast
      with i have "shrank g g'" unfolding shrank_def by blast
      then show ?thesis ..
    qed
  next
    assume "shrank g g' \<or> shrank g' g''"
    then show "shrank g g''"
    proof
      assume "shrank g g'"
      then obtain i where i: "i < length (data g)" "is_Cell (data g ! i)" "cell_at g' i \<subset> cell_at g i"
        by (auto simp: shrank_def)
      with a [of i] b [of i] have "cell_at g'' i \<subset> cell_at g i" by blast
      with i show ?thesis unfolding shrank_def by blast
    next
      assume "shrank g' g''"
      then obtain i where i: "i < length (data g)" "is_Cell (data g' ! i)" "cell_at g'' i \<subset> cell_at g' i"
        unfolding shrank_def len by auto
      with c [of i] have cell: "is_Cell (data g ! i)" by blast
      with i a [of i] have "cell_at g'' i \<subset> cell_at g i" by blast
      with i cell show ?thesis unfolding shrank_def by blast
    qed
  qed
qed

lemma store_cells_shrinks:
  assumes d: "distinct idxs" and r: "\<forall>i\<in>set idxs. i < length (data g) \<and> is_Cell (data g ! i)"
    and sub: "\<forall>c. f c \<subseteq> c"
  shows "shrinks g (store_cells idxs (map (\<lambda>i. f (cell_at g i)) idxs) g)" (is "shrinks g ?g'")
    and "shrank g (store_cells idxs (map (\<lambda>i. f (cell_at g i)) idxs) g)
           \<longleftrightarrow> (\<exists>i\<in>set idxs. f (cell_at g i) \<noteq> cell_at g i)"
proof -
  have at: "data ?g' ! i = Cell (f (cell_at g i))" if "i \<in> set idxs" for i
  proof -
    from that obtain k where k: "k < length idxs" "idxs ! k = i" by (auto simp: in_set_conv_nth)
    with r that have "idxs ! k < length (data g)" by auto
    from store_cells_nth [OF d _ k(1) this, of "map (\<lambda>i. f (cell_at g i)) idxs"] k
    show ?thesis by simp
  qed
  have other: "data ?g' ! i = data g ! i" if "i \<notin> set idxs" for i
    using that by (rule store_cells_other)
  show "shrinks g ?g'"
    unfolding shrinks_def
  proof (intro conjI allI impI)
    fix i assume "i < length (data g)"
    show "if is_Cell (data g ! i) then is_Cell (data ?g' ! i) \<and> cell_at ?g' i \<subseteq> cell_at g i
          else data ?g' ! i = data g ! i"
    proof (cases "i \<in> set idxs")
      case True
      with at [OF True] r sub show ?thesis by (auto simp: cell_at_def)
    next
      case False
      with other [OF False] show ?thesis by (simp add: cell_at_def)
    qed
  qed simp_all
  show "shrank g ?g' \<longleftrightarrow> (\<exists>i\<in>set idxs. f (cell_at g i) \<noteq> cell_at g i)"
  proof
    assume "shrank g ?g'"
    then obtain i where i: "i < length (data g)" "cell_at ?g' i \<subset> cell_at g i"
      by (auto simp: shrank_def)
    then have "i \<in> set idxs" using other [of i] by (auto simp: cell_at_def)
    moreover from this i at [of i] have "f (cell_at g i) \<noteq> cell_at g i" by (auto simp: cell_at_def)
    ultimately show "\<exists>i\<in>set idxs. f (cell_at g i) \<noteq> cell_at g i" ..
  next
    assume "\<exists>i\<in>set idxs. f (cell_at g i) \<noteq> cell_at g i"
    then obtain i where i: "i \<in> set idxs" "f (cell_at g i) \<noteq> cell_at g i" ..
    with sub have "f (cell_at g i) \<subset> cell_at g i" by blast
    with at [OF i(1)] have "cell_at ?g' i \<subset> cell_at g i" by (simp add: cell_at_def)
    with i(1) r show "shrank g ?g'" unfolding shrank_def by blast
  qed
qed

lemma card_changed_Int: "finite c \<Longrightarrow> card c \<noteq> card (c \<inter> s) \<longleftrightarrow> c \<inter> s \<noteq> c"
  by (metis Int_lower1 card_seteq order_refl)

lemma card_changed_Diff: "finite c \<Longrightarrow> card c \<noteq> card (c - s) \<longleftrightarrow> c - s \<noteq> c"
  by (metis Diff_subset card_seteq order_refl)

lemma emap_Inr:
  "\<forall>x\<in>set xs. \<exists>y. f x = Inr y \<Longrightarrow> emap f xs = Inr (map (\<lambda>x. projr (f x)) xs)"
  by (induction xs) (auto simp: ebind_def)

lemma unique_values_uniques:
  "\<forall>i\<in>set idxs. is_unique (cell_at g i)
     \<Longrightarrow> unique_values g idxs = Inr (map (\<lambda>i. the_elem (cell_at g i)) idxs)"
  unfolding unique_values_def
  by (induction idxs) (auto simp: ebind_def unique_value_def)

lemma contiguous_cells:
  "set (contiguous g idxs) \<subseteq> set idxs" "\<forall>i\<in>set (contiguous g idxs). is_Cell (data g ! i)"
  "distinct idxs \<Longrightarrow> distinct (contiguous g idxs)"
  unfolding contiguous_def by (auto dest: set_takeWhileD)

section \<open>Pass A only narrows\<close>

lemma pending_cells_ok:
  assumes "distinct cs" "\<forall>i\<in>set cs. i < length (data g)"
  shows "distinct (filter P (contiguous g cs))"
    and "\<forall>i\<in>set (filter P (contiguous g cs)). i < length (data g) \<and> is_Cell (data g ! i)"
  using assms contiguous_cells [where g = g and idxs = cs] by auto

text \<open>The run of Pass A, with the loops and the store written out.\<close>

lemma uniques_run_unfold:
  "uniques_run n cs ch g =
     (if n = 0 then (Inr ch, g)
      else
        let pending = filter (\<lambda>i. \<not> is_unique (cell_at g i)) (contiguous g cs);
            uniques = filter (\<lambda>i. is_unique (cell_at g i)) (contiguous g cs);
            S = (\<lambda>i. the_elem (cell_at g i)) ` set uniques
        in if card S \<noteq> length uniques then (Inl AssertionError, g)
           else
             let ch1 = (ch \<or> (\<exists>i\<in>set pending. card (cell_at g i) \<noteq> card (cell_at g i - S)));
                 g1 = store_cells pending (map (\<lambda>i. cell_at g i - S) pending) g
             in if n - \<Sum> S \<noteq> 0
                then (case constrain_cells_sum (n - \<Sum> S) (map (cell_at g1) pending) of
                        Inl e \<Rightarrow> (Inl e, g1)
                      | Inr (ch2, cs2) \<Rightarrow> (Inr (ch2 \<or> ch1), store_cells pending cs2 g1))
                else (Inr ch1, g1))"
  by (simp add: uniques_run_def unique_values_uniques substract_all_eq Let_def comp_def)

lemma uniques_run_shrinks:
  assumes d: "distinct cs" and r: "\<forall>i\<in>set cs. i < length (data g)"
    and run: "uniques_run n cs ch g = (res, g')"
  shows "narrows g ch (res, g')"
proof -
  let ?pending = "filter (\<lambda>i. \<not> is_unique (cell_at g i)) (contiguous g cs)"
  let ?uniques = "filter (\<lambda>i. is_unique (cell_at g i)) (contiguous g cs)"
  let ?S = "(\<lambda>i. the_elem (cell_at g i)) ` set ?uniques"
  let ?g1 = "store_cells ?pending (map (\<lambda>i. cell_at g i - ?S) ?pending) g"
  let ?n' = "n - \<Sum> ?S"
  let ?A = "summands_of ?n' (int (length ?pending))"
  let ?B = "allowed_range ?n' (int (length ?pending))"
  let ?g2 = "store_cells ?pending (map (\<lambda>i. cell_at ?g1 i \<inter> ?A \<inter> ?B) ?pending) ?g1"
  let ?f1 = "\<exists>i\<in>set ?pending. card (cell_at g i) \<noteq> card (cell_at g i - ?S)"
  let ?f2 = "\<exists>c\<in>set (map (cell_at ?g1) ?pending). card c \<noteq> card (c \<inter> ?A) \<or> card (c \<inter> ?A) \<noteq> card (c \<inter> ?A \<inter> ?B)"
  have pd: "distinct ?pending"
    and pr: "\<forall>i\<in>set ?pending. i < length (data g) \<and> is_Cell (data g ! i)"
    using pending_cells_ok [OF d r] by blast+
  have s1: "shrinks g ?g1"
    and k1: "shrank g ?g1 \<longleftrightarrow> (\<exists>i\<in>set ?pending. cell_at g i - ?S \<noteq> cell_at g i)"
    using store_cells_shrinks [OF pd pr, of "\<lambda>c. c - ?S"] by auto
  have pr1: "\<forall>i\<in>set ?pending. i < length (data ?g1) \<and> is_Cell (data ?g1 ! i)"
    using s1 pr unfolding shrinks_def by (metis (no_types, lifting))
  have s2: "shrinks ?g1 ?g2"
    and k2: "shrank ?g1 ?g2 \<longleftrightarrow> (\<exists>i\<in>set ?pending. cell_at ?g1 i \<inter> ?A \<inter> ?B \<noteq> cell_at ?g1 i)"
    using store_cells_shrinks [OF pd pr1, of "\<lambda>c. c \<inter> ?A \<inter> ?B"] by auto
  have fin: "finite (cell_at g i)" if "finite_cells g" "i \<in> set ?pending" for i
    using that pr unfolding finite_cells_def cell_at_def by (metis nth_mem)
  have fin1: "finite (cell_at ?g1 i)" if "finite_cells g" "i \<in> set ?pending" for i
    using shrinks_finite [OF s1 that(1)] that(2) pr1 unfolding finite_cells_def cell_at_def
    by (metis nth_mem)
  have flag1: "?f1 \<longleftrightarrow> shrank g ?g1" if "finite_cells g"
    unfolding k1 using fin [OF that] by (auto simp: card_changed_Diff)
  have flag2: "?f2 \<longleftrightarrow> shrank ?g1 ?g2" if "finite_cells g"
  proof -
    have "card c \<noteq> card (c \<inter> ?A) \<or> card (c \<inter> ?A) \<noteq> card (c \<inter> ?A \<inter> ?B) \<longleftrightarrow> c \<inter> ?A \<inter> ?B \<noteq> c"
      if "finite c" for c :: "int set"
      using that card_changed_Int [of c ?A] card_changed_Int [of "c \<inter> ?A" ?B] by auto
    then show ?thesis unfolding k2 using fin1 [OF that] by auto
  qed
  consider (zero) "n = 0"
    | (dup) "n \<noteq> 0" "card ?S \<noteq> length ?uniques"
    | (settled) "n \<noteq> 0" "card ?S = length ?uniques" "?n' = 0"
    | (bad) "n \<noteq> 0" "card ?S = length ?uniques" "?n' \<noteq> 0"
        "\<not> (triangular (int (length ?pending)) \<le> ?n' \<and> ?n' \<le> triangular_prime (int (length ?pending)) 10)"
    | (narrow) "n \<noteq> 0" "card ?S = length ?uniques" "?n' \<noteq> 0"
        "triangular (int (length ?pending)) \<le> ?n'" "?n' \<le> triangular_prime (int (length ?pending)) 10"
    by blast
  then have "shrinks g g' \<and> (finite_cells g \<longrightarrow> (\<forall>ch'. res = Inr ch' \<longrightarrow> (ch' \<longleftrightarrow> ch \<or> shrank g g')))"
  proof cases
    case zero
    with run show ?thesis by (auto simp: uniques_run_unfold shrank_def)
  next
    case dup
    with run have "g' = g" "res = Inl AssertionError"
      unfolding uniques_run_unfold Let_def by simp_all
    then show ?thesis by simp
  next
    case settled
    with run have "g' = ?g1" "res = Inr (ch \<or> ?f1)"
      unfolding uniques_run_unfold Let_def by simp_all
    with s1 flag1 show ?thesis by auto
  next
    case bad
    then have "constrain_cells_sum ?n' (map (cell_at ?g1) ?pending) = Inl AssertionError"
      using constrain_cells_sum_fails [of "map (cell_at ?g1) ?pending" ?n'] by simp
    with bad run have "g' = ?g1" "res = Inl AssertionError"
      unfolding uniques_run_unfold Let_def by simp_all
    with s1 show ?thesis by auto
  next
    case narrow
    have "constrain_cells_sum ?n' (map (cell_at ?g1) ?pending) =
        Inr (?f2, map (\<lambda>c. c \<inter> ?A \<inter> ?B) (map (cell_at ?g1) ?pending))"
      using constrain_cells_sum_eq [of "map (cell_at ?g1) ?pending" ?n'] narrow by simp
    with narrow run have "g' = ?g2" "res = Inr (?f2 \<or> (ch \<or> ?f1))"
      unfolding uniques_run_unfold Let_def by (simp_all add: comp_def)
    with flag1 flag2 shrank_trans [OF s1 s2] shrinks_trans [OF s1 s2] show ?thesis by auto
  qed
then show ?thesis by (simp add: narrows_def)
qed

lemma narrows_start: "narrows g ch (Inr ch, g)"
  by (simp add: narrows_def shrank_def)

lemma narrows_raise: "shrinks g g' \<Longrightarrow> narrows g ch (Inl e, g')"
  by (simp add: narrows_def)

lemma narrows_compose:
  assumes "narrows g ch (Inr ch1, g1)" "narrows g1 ch1 r"
  shows "narrows g ch r"
proof -
  from assms have s: "shrinks g g1" "shrinks g1 (snd r)" by (simp_all add: narrows_def)
  show ?thesis
    unfolding narrows_def
  proof (intro conjI impI allI)
    show "shrinks g (snd r)" using s by (rule shrinks_trans)
  next
    fix ch' assume f: "finite_cells g" and r: "fst r = Inr ch'"
    from f s(1) have "finite_cells g1" by (rule shrinks_finite [rotated])
    with assms r f have "ch1 \<longleftrightarrow> ch \<or> shrank g g1" "ch' \<longleftrightarrow> ch1 \<or> shrank g1 (snd r)"
      by (simp_all add: narrows_def)
    then show "ch' \<longleftrightarrow> ch \<or> shrank g (snd r)"
      using shrank_trans [OF s] by blast
  qed
qed

lemma narrows_after:
  assumes "narrows g ch (Inr ch1, g1)" "narrows g1 ch1 (res, g2)"
  shows "narrows g ch (res, g2)"
  using narrows_compose [OF assms] .

lemma items_ok:
  assumes "items_south_of g row col = Inr idxs \<or> items_east_of g row col = Inr idxs
     \<or> items_north_of g row col = Inr idxs \<or> items_west_of g row col = Inr idxs"
  shows "distinct idxs \<and> (\<forall>i\<in>set idxs. i < length (data g))"
proof -
  from assms obtain start stop step where "slice_indices (length (data g)) start stop step = Inr idxs"
    unfolding items_south_of_def items_east_of_def items_north_of_def items_west_of_def
    by (auto split: if_splits)
  then show ?thesis using slice_indices_distinct slice_indices_in_range by blast
qed

lemma clue_strips_ok:
  assumes "clue_strips g idx = Inr (vs, hs)"
  shows "distinct vs" "\<forall>i\<in>set vs. i < length (data g)" "distinct hs" "\<forall>i\<in>set hs. i < length (data g)"
proof -
  from assms obtain row col where "items_south_of g row col = Inr vs" "items_east_of g row col = Inr hs"
    by (auto simp: clue_strips_def ebind_def split: sum.splits prod.splits)
  then show "distinct vs" "\<forall>i\<in>set vs. i < length (data g)" "distinct hs" "\<forall>i\<in>set hs. i < length (data g)"
    using items_ok [of g row col vs] items_ok [of g row col hs] by blast+
qed

lemma discard_from_uniques_loop_narrows:
  "narrows g ch (discard_from_uniques_loop idxs ch g)"
proof (induction idxs arbitrary: ch g)
  case Nil
  then show ?case by (simp add: narrows_start)
next
  case (Cons idx rest)
  show ?case
  proof (cases "data g ! idx")
    case (Cell c)
    with Cons show ?thesis by simp
  next
    case (Clue v h)
    show ?thesis
    proof (cases "clue_strips g idx")
      case (Inl e)
      with Clue show ?thesis by (simp add: narrows_raise)
    next
      case (Inr strips)
      obtain vs hs where strips: "strips = (vs, hs)" by (cases strips)
      note ok = clue_strips_ok [OF Inr [unfolded strips]]
      obtain r1 g1 where run1: "uniques_run v vs ch g = (r1, g1)" by (cases "uniques_run v vs ch g")
      have n1: "narrows g ch (r1, g1)" using uniques_run_shrinks [OF ok(1,2) run1] .
      show ?thesis
      proof (cases r1)
        case (Inl e)
        with Clue Inr strips run1 n1 show ?thesis by simp
      next
        case (Inr ch1)
        note r1 = this
        have len: "length (data g1) = length (data g)" using n1 by (simp add: narrows_def shrinks_def)
        obtain r2 g2 where run2: "uniques_run h hs ch1 g1 = (r2, g2)" by (cases "uniques_run h hs ch1 g1")
        have n2: "narrows g1 ch1 (r2, g2)" using uniques_run_shrinks [OF ok(3) _ run2] ok(4) len by simp
        have n12: "narrows g ch (r2, g2)" using narrows_after n1 [unfolded r1] n2 by blast
        show ?thesis
        proof (cases r2)
          case (Inl e)
          with Clue \<open>clue_strips g idx = Inr strips\<close> strips run1 r1 run2 n12 show ?thesis by simp
        next
          case (Inr ch2)
          with Clue \<open>clue_strips g idx = Inr strips\<close> strips run1 r1 run2
          have "discard_from_uniques_loop (idx # rest) ch g = discard_from_uniques_loop rest ch2 g2" by simp
          with Cons.IH [of g2 ch2] n12 [unfolded Inr] show ?thesis by (simp add: narrows_compose)
        qed
      qed
    qed
  qed
qed

lemma discard_from_uniques_narrows: "narrows g False (discard_from_uniques g)"
  by (simp add: discard_from_uniques_def discard_from_uniques_loop_narrows)

section \<open>Pass B only narrows\<close>

lemma set_cell_narrows:
  assumes "i < length (data g)" "is_Cell (data g ! i)"
  shows "narrows g ch (Inr (card (cell_at g i) \<noteq> card (cell_at g i - bad) \<or> ch), set_cell g i (cell_at g i - bad))"
proof -
  have eq: "set_cell g i (cell_at g i - bad) = store_cells [i] (map (\<lambda>j. cell_at g j - bad) [i]) g"
    by simp
  have s: "shrinks g (set_cell g i (cell_at g i - bad))"
    and k: "shrank g (set_cell g i (cell_at g i - bad)) \<longleftrightarrow> cell_at g i - bad \<noteq> cell_at g i"
    unfolding eq using store_cells_shrinks [of "[i]" g "\<lambda>c. c - bad"] assms by auto
  have "finite (cell_at g i)" if "finite_cells g"
    using that assms unfolding finite_cells_def cell_at_def by (metis nth_mem)
  then show ?thesis
    unfolding narrows_def using s k by (auto simp: card_changed_Diff)
qed

lemma single_clue_cells_narrows:
  assumes "\<forall>i\<in>set rest. i < length (data g) \<and> is_Cell (data g ! i)"
  shows "narrows g ch (Inr (fst (single_clue_cells enum n pending rest ch g)),
                      snd (single_clue_cells enum n pending rest ch g))"
  using assms
proof (induction rest arbitrary: ch g)
  case Nil
  then show ?case by (simp add: narrows_start)
next
  case (Cons cell rest)
  let ?bad = "{x \<in> cell_at g cell. \<not> feasible enum g n (removeAll cell pending) x}"
  let ?g1 = "set_cell g cell (cell_at g cell - ?bad)"
  let ?ch1 = "card (cell_at g cell) \<noteq> card (cell_at g cell - ?bad) \<or> ch"
  have step: "narrows g ch (Inr ?ch1, ?g1)"
    using set_cell_narrows [of cell g ch ?bad] Cons.prems by simp
  then have "shrinks g ?g1" by (simp add: narrows_def)
  with Cons.prems have "\<forall>i\<in>set rest. i < length (data ?g1) \<and> is_Cell (data ?g1 ! i)"
    unfolding shrinks_def by (metis (no_types, lifting) list.set_intros(2))
  from Cons.IH [OF this, of ?ch1] step
  have "narrows g ch (Inr (fst (single_clue_cells enum n pending rest ?ch1 ?g1)),
                      snd (single_clue_cells enum n pending rest ?ch1 ?g1))"
    by (rule narrows_compose [rotated])
  then show ?case by (simp add: substract_def Let_def)
qed

lemma single_clue_run_narrows:
  assumes ord: "\<forall>xs. set (cell_order xs) \<subseteq> set xs"
    and d: "distinct cs" and r: "\<forall>i\<in>set cs. i < length (data g)"
  shows "narrows g ch (single_clue_run enum cell_order n cs ch g)"
proof -
  let ?pending = "filter (\<lambda>i. \<not> is_unique (cell_at g i)) (contiguous g cs)"
  have "\<forall>i\<in>set ?pending. i < length (data g) \<and> is_Cell (data g ! i)"
    using pending_cells_ok [OF d r] by blast
  with ord have "\<forall>i\<in>set (cell_order ?pending). i < length (data g) \<and> is_Cell (data g ! i)"
    by blast
  from single_clue_cells_narrows [OF this]
  have h: "narrows g ch (case single_clue_cells enum n' ?pending (cell_order ?pending) ch g of
                          (changed', g') \<Rightarrow> (Inr changed', g'))" for n'
    by (simp add: case_prod_unfold)
  show ?thesis
    unfolding single_clue_run_def Let_def
    by (simp add: narrows_start narrows_raise h split: sum.splits)
qed

lemma discard_from_single_clues_loop_narrows:
  assumes ord: "\<forall>xs. set (cell_order xs) \<subseteq> set xs"
  shows "narrows g ch (discard_from_single_clues_loop enum cell_order idxs ch g)"
proof (induction idxs arbitrary: ch g)
  case Nil
  then show ?case by (simp add: narrows_start)
next
  case (Cons idx rest)
  show ?case
  proof (cases "data g ! idx")
    case (Cell c)
    with Cons show ?thesis by simp
  next
    case (Clue v h)
    show ?thesis
    proof (cases "clue_strips g idx")
      case (Inl e)
      with Clue show ?thesis by (simp add: narrows_raise)
    next
      case (Inr strips)
      obtain vs hs where strips: "strips = (vs, hs)" by (cases strips)
      note ok = clue_strips_ok [OF Inr [unfolded strips]]
      obtain r1 g1 where run1: "single_clue_run enum cell_order v vs ch g = (r1, g1)"
        by (cases "single_clue_run enum cell_order v vs ch g")
      have n1: "narrows g ch (r1, g1)"
        using single_clue_run_narrows [OF ord ok(1,2), of ch enum v] run1 by simp
      show ?thesis
      proof (cases r1)
        case (Inl e)
        with Clue Inr strips run1 n1 show ?thesis by simp
      next
        case (Inr ch1)
        note r1 = this
        have len: "length (data g1) = length (data g)" using n1 by (simp add: narrows_def shrinks_def)
        obtain r2 g2 where run2: "single_clue_run enum cell_order h hs ch1 g1 = (r2, g2)"
          by (cases "single_clue_run enum cell_order h hs ch1 g1")
        have n2: "narrows g1 ch1 (r2, g2)"
          using single_clue_run_narrows [OF ord ok(3), of g1 ch1 enum h] ok(4) len run2 by simp
        have n12: "narrows g ch (r2, g2)" using narrows_after n1 [unfolded r1] n2 by blast
        show ?thesis
        proof (cases r2)
          case (Inl e)
          with Clue \<open>clue_strips g idx = Inr strips\<close> strips run1 r1 run2 n12 show ?thesis by simp
        next
          case (Inr ch2)
          with Clue \<open>clue_strips g idx = Inr strips\<close> strips run1 r1 run2
          have "discard_from_single_clues_loop enum cell_order (idx # rest) ch g
              = discard_from_single_clues_loop enum cell_order rest ch2 g2" by simp
          with Cons.IH [of g2 ch2] n12 [unfolded Inr] show ?thesis by (simp add: narrows_compose)
        qed
      qed
    qed
  qed
qed

lemma discard_from_single_clues_narrows:
  "\<forall>xs. set (cell_order xs) \<subseteq> set xs \<Longrightarrow> narrows g False (discard_from_single_clues enum cell_order g)"
  by (simp add: discard_from_single_clues_def discard_from_single_clues_loop_narrows)

section \<open>The range narrowing only narrows\<close>

lemma two_cards:
  assumes "finite (c :: int set)"
  shows "card c \<noteq> card (c \<inter> A) \<or> card (c \<inter> A) \<noteq> card (c \<inter> A \<inter> B) \<longleftrightarrow> c \<inter> A \<inter> B \<subset> c"
proof -
  have "card c \<noteq> card (c \<inter> A) \<longleftrightarrow> c \<inter> A \<noteq> c"
    using assms by (rule card_changed_Int)
  moreover have "card (c \<inter> A) \<noteq> card (c \<inter> A \<inter> B) \<longleftrightarrow> c \<inter> A \<inter> B \<noteq> c \<inter> A"
    using assms by (simp add: card_changed_Int)
  moreover have "c \<inter> A \<noteq> c \<or> c \<inter> A \<inter> B \<noteq> c \<inter> A \<longleftrightarrow> c \<inter> A \<inter> B \<subset> c"
    by blast
  ultimately show ?thesis by simp
qed

lemma constrain_cells_sum_narrows:
  assumes "constrain_cells_sum n cs = Inr (ch, cs')"
  shows "length cs' = length cs" "\<forall>i<length cs. cs' ! i \<subseteq> cs ! i"
    "\<forall>c\<in>set cs. finite c \<Longrightarrow> ch \<longleftrightarrow> (\<exists>i<length cs. cs' ! i \<subset> cs ! i)"
proof -
  let ?A = "summands_of n (int (length cs))"
  let ?B = "allowed_range n (int (length cs))"
  have pre: "triangular (int (length cs)) \<le> n \<and> n \<le> triangular_prime (int (length cs)) 10"
  proof (rule ccontr)
    assume "\<not> ?thesis"
    from constrain_cells_sum_fails [OF this] assms show False by simp
  qed
  then have eq: "constrain_cells_sum n cs =
     Inr ((\<exists>c\<in>set cs. card c \<noteq> card (c \<inter> ?A) \<or> card (c \<inter> ?A) \<noteq> card (c \<inter> ?A \<inter> ?B)),
          map (\<lambda>c. c \<inter> ?A \<inter> ?B) cs)"
    using constrain_cells_sum_eq [of cs n] by blast
  from assms [unfolded eq]
  have both: "(\<exists>c\<in>set cs. card c \<noteq> card (c \<inter> ?A) \<or> card (c \<inter> ?A) \<noteq> card (c \<inter> ?A \<inter> ?B)) = ch
      \<and> map (\<lambda>c. c \<inter> ?A \<inter> ?B) cs = cs'"
    by (simp only: sum.inject prod.inject)
  have cs': "cs' = map (\<lambda>c. c \<inter> ?A \<inter> ?B) cs"
    using both [THEN conjunct2] by (rule sym)
  have ch: "ch \<longleftrightarrow> (\<exists>c\<in>set cs. card c \<noteq> card (c \<inter> ?A) \<or> card (c \<inter> ?A) \<noteq> card (c \<inter> ?A \<inter> ?B))"
    using both [THEN conjunct1] by (rule sym)
  show "length cs' = length cs" by (simp add: cs')
  show "\<forall>i<length cs. cs' ! i \<subseteq> cs ! i" by (simp add: cs') blast
  assume fin: "\<forall>c\<in>set cs. finite c"
  have "card c \<noteq> card (c \<inter> ?A) \<or> card (c \<inter> ?A) \<noteq> card (c \<inter> ?A \<inter> ?B) \<longleftrightarrow> c \<inter> ?A \<inter> ?B \<subset> c"
    if "c \<in> set cs" for c
    using fin that by (intro two_cards) simp
  then have "ch \<longleftrightarrow> (\<exists>c\<in>set cs. c \<inter> ?A \<inter> ?B \<subset> c)"
    unfolding ch by (rule bex_cong [OF refl])
  also have "\<dots> \<longleftrightarrow> (\<exists>i<length cs. cs ! i \<inter> ?A \<inter> ?B \<subset> cs ! i)"
    by (metis in_set_conv_nth)
  also have "\<dots> \<longleftrightarrow> (\<exists>i<length cs. cs' ! i \<subset> cs ! i)"
    by (simp add: cs' cong: conj_cong)
  finally show "ch \<longleftrightarrow> (\<exists>i<length cs. cs' ! i \<subset> cs ! i)" .
qed

section \<open>Narrowing only shrinks candidate sets\<close>

lemma narrows_result:
  assumes "narrows g False (r, g')"
  shows "shrinks g g' \<and> (finite_cells g \<longrightarrow> (\<forall>changed. r = Inr changed \<longrightarrow> (changed \<longleftrightarrow> shrank g g')))"
  using assms by (simp add: narrows_def)

text \<open>
  C10. The range narrowing and the two passes only shrink candidate sets: the narrowing returns as
  many sets as it was given, each a subset of the one before; a pass leaves the dimensions, the
  number of entries and every clue as they were and every cell with a subset of its candidates,
  also when it ends in an exception. Candidate sets being finite, as Python sets are, each of the
  three operations returns true exactly when some candidate set is strictly smaller afterwards.
  (Pass B iterates the pending cells in the order \<open>cell_order\<close> gives them, which lists cells of its
  argument.)
\<close>

theorem narrowing_only_shrinks:
  "(constrain_cells_sum n cs = Inr (ch, cs') \<longrightarrow>
       length cs' = length cs \<and> (\<forall>i<length cs. cs' ! i \<subseteq> cs ! i)
       \<and> ((\<forall>c\<in>set cs. finite c) \<longrightarrow> (ch \<longleftrightarrow> (\<exists>i<length cs. cs' ! i \<subset> cs ! i))))
   \<and> (discard_from_uniques g = (ra, ga) \<longrightarrow>
         shrinks g ga
         \<and> (finite_cells g \<longrightarrow> (\<forall>changed. ra = Inr changed \<longrightarrow> (changed \<longleftrightarrow> shrank g ga))))
   \<and> ((\<forall>xs. set (cell_order xs) \<subseteq> set xs)
        \<and> discard_from_single_clues enum cell_order g = (rb, gb) \<longrightarrow>
         shrinks g gb
         \<and> (finite_cells g \<longrightarrow> (\<forall>changed. rb = Inr changed \<longrightarrow> (changed \<longleftrightarrow> shrank g gb))))"
proof (intro conjI impI)
  assume a: "constrain_cells_sum n cs = Inr (ch, cs')"
  show "length cs' = length cs" using constrain_cells_sum_narrows(1) [OF a] .
  show "\<forall>i<length cs. cs' ! i \<subseteq> cs ! i" using constrain_cells_sum_narrows(2) [OF a] .
  assume "\<forall>c\<in>set cs. finite c"
  then show "ch \<longleftrightarrow> (\<exists>i<length cs. cs' ! i \<subset> cs ! i)" by (rule constrain_cells_sum_narrows(3) [OF a])
next
  assume "discard_from_uniques g = (ra, ga)"
  then have n: "narrows g False (ra, ga)" using discard_from_uniques_narrows [of g] by simp
  from narrows_result [OF n] show "shrinks g ga"
    and "finite_cells g \<Longrightarrow> \<forall>changed. ra = Inr changed \<longrightarrow> (changed \<longleftrightarrow> shrank g ga)" by blast+
next
  assume "(\<forall>xs. set (cell_order xs) \<subseteq> set xs) \<and> discard_from_single_clues enum cell_order g = (rb, gb)"
  then have n: "narrows g False (rb, gb)"
    using discard_from_single_clues_narrows [of cell_order g enum] by simp
  from narrows_result [OF n] show "shrinks g gb"
    and "finite_cells g \<Longrightarrow> \<forall>changed. rb = Inr changed \<longrightarrow> (changed \<longleftrightarrow> shrank g gb)" by blast+
qed

lemma narrow_4: "constrain_cells_sum 4 [{1, 2, 3}, {1, 2, 3}] = Inr (True, [{1, 3}, {1, 3}])"
  by code_simp

lemma pass_a_4:
  "discard_from_uniques \<lparr>width = 3, height = 1, data = [Clue 0 4, Cell {1, 2, 3}, Cell {1, 2, 3}]\<rparr>
   = (Inr True, \<lparr>width = 3, height = 1, data = [Clue 0 4, Cell {1, 3}, Cell {1, 3}]\<rparr>)"
  by code_simp

lemma pass_b_4:
  "discard_from_single_clues ascending in_order
     \<lparr>width = 3, height = 1, data = [Clue 0 4, Cell {1, 2, 3}, Cell {1, 2, 3}]\<rparr>
   = (Inr True, \<lparr>width = 3, height = 1, data = [Clue 0 4, Cell {1, 3}, Cell {1, 3}]\<rparr>)"
  by code_simp

theorem narrowing_only_shrinks_witness:
  "(\<exists>i<2. [{1, 3}, {1, 3}] ! i \<subset> [{1, 2, 3}, {1, 2, 3 :: int}] ! i)
   \<and> shrinks \<lparr>width = 3, height = 1, data = [Clue 0 4, Cell {1, 2, 3}, Cell {1, 2, 3}]\<rparr>
        \<lparr>width = 3, height = 1, data = [Clue 0 4, Cell {1, 3}, Cell {1, 3}]\<rparr>
   \<and> shrank \<lparr>width = 3, height = 1, data = [Clue 0 4, Cell {1, 2, 3}, Cell {1, 2, 3}]\<rparr>
        \<lparr>width = 3, height = 1, data = [Clue 0 4, Cell {1, 3}, Cell {1, 3}]\<rparr>"
proof -
  let ?g = "\<lparr>width = 3, height = 1, data = [Clue 0 4, Cell {1, 2, 3}, Cell {1, 2, 3}]\<rparr>"
  let ?g' = "\<lparr>width = 3, height = 1, data = [Clue 0 4, Cell {1, 3}, Cell {1, 3}]\<rparr>"
  have fin: "finite_cells ?g" "\<forall>c\<in>set [{1, 2, 3}, {1, 2, 3 :: int}]. finite c"
    by (simp_all add: finite_cells_def)
  have ord: "\<forall>xs. set (in_order xs) \<subseteq> set xs"
    by (simp add: in_order_def)
  from narrowing_only_shrinks [of 4 "[{1, 2, 3}, {1, 2, 3}]" True "[{1, 3}, {1, 3}]" ?g "Inr True" ?g'
      in_order ascending "Inr True" ?g']
  show ?thesis
    using fin ord narrow_4 pass_a_4 pass_b_4 by (simp add: numeral_2_eq_2) blast
qed

section \<open>Pass A: the residual target\<close>

lemma constrain_cells_sum_no_cells: "n \<noteq> 0 \<Longrightarrow> constrain_cells_sum n [] = Inl AssertionError"
  by (rule constrain_cells_sum_fails) (auto simp: triangular_def triangular_prime_def)

text \<open>
  C6, as amended. In Pass A, for a run with a nonzero target whose resolved digits are distinct,
  the resolved digits are subtracted from every pending cell first. If the residual target is not
  zero, the range narrowing is called on the pending cells, as they are after the subtraction, with
  the residual target: its exception is the pass's exception and the grid stays as the subtraction
  left it, its new candidate sets are what the pending cells hold afterwards; with no pending cell
  left that call is an assertion failure. If the residual target is zero the narrowing is not
  called and the run ends without an exception, whatever the number of pending cells.
\<close>

theorem pass_a_residual:
  assumes "n \<noteq> 0" and "distinct cs" and "\<forall>i\<in>set cs. i < length (data g)"
  shows "let pending = filter (\<lambda>i. \<not> is_unique (cell_at g i)) (contiguous g cs);
             uniques = filter (\<lambda>i. is_unique (cell_at g i)) (contiguous g cs);
             S_used = (\<lambda>i. the_elem (cell_at g i)) ` set uniques;
             residual = n - \<Sum> S_used;
             subtracted = store_cells pending (map (\<lambda>i. cell_at g i - S_used) pending) g
         in card S_used = length uniques \<longrightarrow>
              (residual \<noteq> 0 \<longrightarrow>
                 (pending = [] \<longrightarrow> uniques_run n cs changed g = (Inl AssertionError, g))
                 \<and> (case constrain_cells_sum residual (map (\<lambda>i. cell_at g i - S_used) pending) of
                       Inl e \<Rightarrow> uniques_run n cs changed g = (Inl e, subtracted)
                     | Inr (ch2, cs2) \<Rightarrow>
                         (\<exists>ch'. fst (uniques_run n cs changed g) = Inr ch')
                         \<and> map (cell_at (snd (uniques_run n cs changed g))) pending = cs2))
              \<and> (residual = 0 \<longrightarrow> (\<exists>ch'. uniques_run n cs changed g = (Inr ch', subtracted)))"
proof -
  let ?pending = "filter (\<lambda>i. \<not> is_unique (cell_at g i)) (contiguous g cs)"
  let ?uniques = "filter (\<lambda>i. is_unique (cell_at g i)) (contiguous g cs)"
  let ?S = "(\<lambda>i. the_elem (cell_at g i)) ` set ?uniques"
  let ?g1 = "store_cells ?pending (map (\<lambda>i. cell_at g i - ?S) ?pending) g"
  let ?n' = "n - \<Sum> ?S"
  have pd: "distinct ?pending"
    and pr: "\<forall>i\<in>set ?pending. i < length (data g) \<and> is_Cell (data g ! i)"
    using pending_cells_ok [OF assms(2,3)] by blast+
  have rd: "map (cell_at ?g1) ?pending = map (\<lambda>i. cell_at g i - ?S) ?pending"
    using store_cells_read [OF pd, of "map (\<lambda>i. cell_at g i - ?S) ?pending" g] pr by simp
  have empty: "?g1 = g" if "?pending = []"
    using that by simp
  have a: "uniques_run n cs changed g = (Inl AssertionError, g)"
    if "card ?S = length ?uniques" "?n' \<noteq> 0" "?pending = []"
    using that assms(1) constrain_cells_sum_no_cells [of ?n']
    unfolding uniques_run_unfold Let_def by simp
  have run: "uniques_run n cs changed g =
      (case constrain_cells_sum ?n' (map (\<lambda>i. cell_at g i - ?S) ?pending) of
         Inl e \<Rightarrow> (Inl e, ?g1)
       | Inr (ch2, cs2) \<Rightarrow>
           (Inr (ch2 \<or> (changed \<or> (\<exists>i\<in>set ?pending. card (cell_at g i) \<noteq> card (cell_at g i - ?S)))),
            store_cells ?pending cs2 ?g1))"
    if "card ?S = length ?uniques" "?n' \<noteq> 0"
    unfolding uniques_run_unfold Let_def rd using that assms(1) by simp
  have b: "case constrain_cells_sum ?n' (map (\<lambda>i. cell_at g i - ?S) ?pending) of
             Inl e \<Rightarrow> uniques_run n cs changed g = (Inl e, ?g1)
           | Inr (ch2, cs2) \<Rightarrow>
               (\<exists>ch'. fst (uniques_run n cs changed g) = Inr ch')
               \<and> map (cell_at (snd (uniques_run n cs changed g))) ?pending = cs2"
    if "card ?S = length ?uniques" "?n' \<noteq> 0"
  proof (cases "constrain_cells_sum ?n' (map (\<lambda>i. cell_at g i - ?S) ?pending)")
    case (Inl e)
    then show ?thesis unfolding run [OF that] by simp
  next
    case (Inr res)
    obtain ch2 cs2 where res: "res = (ch2, cs2)" by (cases res)
    have len: "length cs2 = length ?pending"
      using constrain_cells_sum_narrows(1) [OF Inr [unfolded res]] by simp
    have pr1: "\<forall>i\<in>set ?pending. i < length (data ?g1)" using pr by simp
    have "map (cell_at (store_cells ?pending cs2 ?g1)) ?pending = cs2"
      using store_cells_read [OF pd len pr1] .
    with Inr res show ?thesis unfolding run [OF that] by simp
  qed
  have c: "\<exists>ch'. uniques_run n cs changed g = (Inr ch', ?g1)"
    if "card ?S = length ?uniques" "?n' = 0"
    using that assms(1) unfolding uniques_run_unfold Let_def by simp
  show ?thesis
    unfolding Let_def using a b c by blast
qed


lemma narrow_5: "constrain_cells_sum 5 [{2, 3, 4, 5, 6, 7, 8, 9}] = Inr (True, [{5}])"
  by code_simp

theorem pass_a_residual_witness:
  "(\<exists>ch'. fst (uniques_run 6 [1, 2] False
       \<lparr>width = 3, height = 1, data = [Clue 0 6, Cell {1}, Cell {1, 2, 3, 4, 5, 6, 7, 8, 9}]\<rparr>) = Inr ch')
   \<and> cell_at (snd (uniques_run 6 [1, 2] False
       \<lparr>width = 3, height = 1, data = [Clue 0 6, Cell {1}, Cell {1, 2, 3, 4, 5, 6, 7, 8, 9}]\<rparr>)) 2 = {5}"
  using pass_a_residual [of 6 "[1, 2]"
      "\<lparr>width = 3, height = 1, data = [Clue 0 6, Cell {1}, Cell {1, 2, 3, 4, 5, 6, 7, 8, 9}]\<rparr>" False]
  by (simp add: Let_def contiguous_def cell_at_def is_unique_def narrow_5)

text \<open>
  C6 as the claim words it fails where the residual target is zero and a pending cell is left: for
  the clue 5 over a resolved 5 and an open cell, the narrowing on the open cell with target 0 would
  be an assertion failure, and Pass A returns true, having only taken the 5 out of the open cell.
\<close>

theorem pass_a_residual_counterexample:
  "discard_from_uniques
       \<lparr>width = 3, height = 1, data = [Clue 0 5, Cell {5}, Cell {1, 2, 3, 4, 5, 6, 7, 8, 9}]\<rparr>
     = (Inr True, \<lparr>width = 3, height = 1, data = [Clue 0 5, Cell {5}, Cell {1, 2, 3, 4, 6, 7, 8, 9}]\<rparr>)
   \<and> constrain_cells_sum (5 - 5) [{1, 2, 3, 4, 6, 7, 8, 9}] = Inl AssertionError"
  by code_simp

section \<open>Pass B: the assertion on the residual target\<close>

lemma single_clue_run_unfold:
  "single_clue_run enum cell_order n cs changed g =
     (if n = 0 then (Inr changed, g)
      else
        let pending = filter (\<lambda>i. \<not> is_unique (cell_at g i)) (contiguous g cs);
            uniques = filter (\<lambda>i. is_unique (cell_at g i)) (contiguous g cs);
            residual = n - sum_list (map (\<lambda>i. the_elem (cell_at g i)) uniques)
        in if \<not> (pending \<noteq> [] \<and> residual > 0 \<or> pending = [] \<and> residual = 0)
           then (Inl AssertionError, g)
           else if residual = 0 then (Inr changed, g)
           else (case single_clue_cells enum residual pending (cell_order pending) changed g of
                   (changed', g') \<Rightarrow> (Inr changed', g')))"
  by (simp add: single_clue_run_def unique_values_uniques Let_def)

text \<open>
  C9. For a run with a nonzero target, Pass B takes the resolved digits off the target and asserts
  that pending cells remain and the residual target is positive, or that none remains and the
  residual is zero. A run that violates this ends in \<^verbatim>\<open>AssertionError\<close> with the grid untouched
  by that run, any other run returns a flag; and an exception of a run, in the vertical or the
  horizontal direction of a clue, is the outcome of the whole pass from that clue on: the pass
  stops there with the exception and returns no value.
\<close>

theorem pass_b_assertion:
  "(n \<noteq> 0 \<longrightarrow>
      (let pending = filter (\<lambda>i. \<not> is_unique (cell_at g i)) (contiguous g cs);
           uniques = filter (\<lambda>i. is_unique (cell_at g i)) (contiguous g cs);
           residual = n - sum_list (map (\<lambda>i. the_elem (cell_at g i)) uniques)
       in (\<not> (pending \<noteq> [] \<and> residual > 0 \<or> pending = [] \<and> residual = 0) \<longrightarrow>
             single_clue_run enum cell_order n cs changed g = (Inl AssertionError, g))
          \<and> (pending \<noteq> [] \<and> residual > 0 \<or> pending = [] \<and> residual = 0 \<longrightarrow>
             (\<exists>changed' g'. single_clue_run enum cell_order n cs changed g = (Inr changed', g')))))
   \<and> (data g ! idx = Clue v h \<and> clue_strips g idx = Inr (vs, hs)
        \<and> single_clue_run enum cell_order v vs changed g = (Inl e, g1) \<longrightarrow>
         discard_from_single_clues_loop enum cell_order (idx # rest) changed g = (Inl e, g1))
   \<and> (data g ! idx = Clue v h \<and> clue_strips g idx = Inr (vs, hs)
        \<and> single_clue_run enum cell_order v vs changed g = (Inr changed1, g1)
        \<and> single_clue_run enum cell_order h hs changed1 g1 = (Inl e, g2) \<longrightarrow>
         discard_from_single_clues_loop enum cell_order (idx # rest) changed g = (Inl e, g2))"
proof (intro conjI impI)
  assume "n \<noteq> 0"
  then show "let pending = filter (\<lambda>i. \<not> is_unique (cell_at g i)) (contiguous g cs);
           uniques = filter (\<lambda>i. is_unique (cell_at g i)) (contiguous g cs);
           residual = n - sum_list (map (\<lambda>i. the_elem (cell_at g i)) uniques)
       in (\<not> (pending \<noteq> [] \<and> residual > 0 \<or> pending = [] \<and> residual = 0) \<longrightarrow>
             single_clue_run enum cell_order n cs changed g = (Inl AssertionError, g))
          \<and> (pending \<noteq> [] \<and> residual > 0 \<or> pending = [] \<and> residual = 0 \<longrightarrow>
             (\<exists>changed' g'. single_clue_run enum cell_order n cs changed g = (Inr changed', g')))"
    unfolding single_clue_run_unfold Let_def by (auto split: prod.splits)
qed simp_all

lemma strips_row: "clue_strips \<lparr>width = 3, height = 1, data = [Clue 0 5, Cell a, Cell b]\<rparr> 0 = Inr ([], [1, 2])"
  by (simp add: grid_eval upt_rec)

theorem pass_b_assertion_witness:
  "discard_from_single_clues ascending in_order
      \<lparr>width = 3, height = 1, data = [Clue 0 5, Cell {1}, Cell {2}]\<rparr>
     = (Inl AssertionError, \<lparr>width = 3, height = 1, data = [Clue 0 5, Cell {1}, Cell {2}]\<rparr>)
   \<and> discard_from_single_clues ascending in_order
      \<lparr>width = 3, height = 1, data = [Clue 0 5, Cell {9}, Cell {1, 2}]\<rparr>
     = (Inl AssertionError, \<lparr>width = 3, height = 1, data = [Clue 0 5, Cell {9}, Cell {1, 2}]\<rparr>)"
proof -
  let ?g = "\<lparr>width = 3, height = 1, data = [Clue 0 5, Cell {1}, Cell {2}]\<rparr>"
  let ?k = "\<lparr>width = 3, height = 1, data = [Clue 0 5, Cell {9}, Cell {1, 2}]\<rparr>"
  have v: "single_clue_run ascending in_order 0 [] False gg = (Inr False, gg)" for gg
    by (simp add: single_clue_run_def)
  have "single_clue_run ascending in_order 5 [1, 2] False ?g = (Inl AssertionError, ?g)"
    using pass_b_assertion [of 5 ?g "[1, 2]" ascending in_order False, THEN conjunct1]
    by (simp add: Let_def contiguous_def cell_at_def is_unique_def)
  then have a: "discard_from_single_clues_loop ascending in_order (0 # rest) False ?g = (Inl AssertionError, ?g)"
    for rest
    using pass_b_assertion [where g = "?g" and enum = ascending and cell_order = in_order
        and changed = False and idx = 0 and v = 0 and h = 5 and vs = "[]" and hs = "[1, 2]"
        and rest = rest and ?changed1.0 = False and ?g1.0 = "?g" and e = AssertionError
        and ?g2.0 = "?g", THEN conjunct2, THEN conjunct2] strips_row v
    by simp
  have "single_clue_run ascending in_order 5 [1, 2] False ?k = (Inl AssertionError, ?k)"
    using pass_b_assertion [of 5 ?k "[1, 2]" ascending in_order False, THEN conjunct1]
    by (simp add: Let_def contiguous_def cell_at_def is_unique_def)
  then have b: "discard_from_single_clues_loop ascending in_order (0 # rest) False ?k = (Inl AssertionError, ?k)"
    for rest
    using pass_b_assertion [where g = "?k" and enum = ascending and cell_order = in_order
        and changed = False and idx = 0 and v = 0 and h = 5 and vs = "[]" and hs = "[1, 2]"
        and rest = rest and ?changed1.0 = False and ?g1.0 = "?k" and e = AssertionError
        and ?g2.0 = "?k", THEN conjunct2, THEN conjunct2] strips_row v
    by simp
  from a b show ?thesis
    by (simp add: discard_from_single_clues_def upt_conv_Cons del: discard_from_single_clues_loop.simps)
qed

section \<open>Traversals of a grid that keeps its invariant\<close>

lemma wf_grid_pos:
  assumes "wf_grid g" "idx < length (data g)"
  shows "0 < width g" "0 < height g"
proof -
  from assms have "0 < width g * height g" "0 \<le> width g" "0 \<le> height g"
    by (auto simp: wf_grid_def)
  then show "0 < width g" "0 < height g"
    by (auto simp: zero_less_mult_iff)
qed

lemma wf_grid_row_col:
  assumes "wf_grid g" "idx < length (data g)"
  shows "row_col g idx = Inr (int idx div width g, int idx mod width g)"
  using assms by (simp add: row_col_def idx2row_def idx2col_def ebind_def wf_grid_def)

lemma wf_grid_row_bound:
  assumes "wf_grid g" "idx < length (data g)"
  shows "int idx div width g < height g" "0 \<le> int idx div width g"
    "int idx mod width g < width g" "0 \<le> int idx mod width g"
proof -
  note pos = wf_grid_pos [OF assms]
  from assms have "int idx < width g * height g" by (simp add: wf_grid_def)
  then have lt: "int idx < height g * width g" by (simp add: mult.commute)
  have id: "int idx div width g * width g + int idx mod width g = int idx" by simp
  have "0 \<le> int idx mod width g" using pos(1) by simp
  with id have "int idx div width g * width g \<le> int idx" by linarith
  with lt have "int idx div width g * width g < height g * width g" by linarith
  then show "int idx div width g < height g"
    using pos(1) by (simp add: mult_less_cancel_right)
  show "0 \<le> int idx div width g" using pos(1) by (simp add: pos_imp_zdiv_nonneg_iff)
  show "int idx mod width g < width g" "0 \<le> int idx mod width g" using pos(1) by simp_all
qed

lemma map_nat_upt: "map (\<lambda>k. nat (int a + int k)) [0..<n] = [a..<a + n]"
  by (induction n) (simp_all add: nat_add_distrib)

lemma items_east_of_wf:
  assumes wf: "wf_grid g" and idx: "idx < length (data g)"
  shows "items_east_of g (int idx div width g) (int idx mod width g) = Inr (east_of g idx)"
proof -
  note pos = wf_grid_pos [OF assms] and b = wf_grid_row_bound [OF assms]
  let ?w = "width g" and ?row = "int idx div width g" and ?l = "int (length (data g))"
  have l: "?l = ?w * height g" using wf by (simp add: wf_grid_def)
  have start: "?row * ?w + int idx mod ?w + 1 = int idx + 1" by simp
  have "(?row + 1) \<le> height g" using b(1) by simp
  then have "(?row + 1) * ?w \<le> height g * ?w" using pos(1) by (simp add: mult_right_mono)
  then have stop_le: "(?row + 1) * ?w \<le> ?l" by (simp add: l mult.commute)
  have stop_ge: "int idx + 1 \<le> (?row + 1) * ?w"
  proof -
    have "?row * ?w + int idx mod ?w = int idx" by simp
    with b(3) have "int idx < ?row * ?w + ?w" by linarith
    then show ?thesis by (simp add: distrib_right)
  qed
  have s: "adjust_index ?l 1 (int idx + 1) = int idx + 1"
    using idx by (auto simp: adjust_index_def)
  have e: "adjust_index ?l 1 ((?row + 1) * ?w) = (?row + 1) * ?w"
    using stop_le stop_ge by (auto simp: adjust_index_def)
  have nat_stop: "nat ((?row + 1) * ?w) = (idx div nat ?w + 1) * nat ?w"
    using pos(1) b(2) by (simp add: nat_mult_distrib nat_add_distrib nat_div_distrib)
  have "slice_indices (length (data g)) (int idx + 1) (Some ((?row + 1) * ?w)) 1
      = Inr (map (\<lambda>k. nat (int (idx + 1) + int k)) [0..<nat ((?row + 1) * ?w - (int idx + 1))])"
    unfolding slice_indices_def Let_def s e option.case using stop_ge by (auto simp: algebra_simps)
  also have "map (\<lambda>k. nat (int (idx + 1) + int k)) [0..<nat ((?row + 1) * ?w - (int idx + 1))]
      = [idx + 1..<idx + 1 + nat ((?row + 1) * ?w - (int idx + 1))]"
    by (rule map_nat_upt)
  also have "idx + 1 + nat ((?row + 1) * ?w - (int idx + 1)) = nat ((?row + 1) * ?w)"
    using stop_ge by linarith
  finally show ?thesis
    using b(1,3) by (simp add: items_east_of_def start east_of_def nat_stop)
qed

lemma items_south_of_wf:
  assumes wf: "wf_grid g" and idx: "idx < length (data g)"
  shows "items_south_of g (int idx div width g) (int idx mod width g) = Inr (south_of g idx)"
proof -
  note pos = wf_grid_pos [OF assms] and b = wf_grid_row_bound [OF assms]
  let ?w = "width g" and ?h = "height g" and ?row = "int idx div width g"
    and ?col = "int idx mod width g" and ?l = "int (length (data g))"
  have l: "?l = ?h * ?w" using wf by (simp add: wf_grid_def mult.commute)
  have id: "?row * ?w + ?col = int idx" by simp
  have start: "(?row + 1) * ?w + ?col = int idx + ?w"
    using id by (simp add: distrib_right)
  have nat_row: "nat ?row = idx div nat ?w"
    using pos(1) by (simp add: nat_div_distrib)
  have rows: "nat (?h - ?row - 1) = nat ?h - 1 - idx div nat ?w"
    using b(1,2) nat_row by linarith
  have elem: "nat (int idx + ?w + int k * ?w) = idx + (k + 1) * nat ?w" for k
    using pos(1) by (simp add: nat_add_distrib nat_mult_distrib algebra_simps)
  show ?thesis
  proof (cases "int idx + ?w < ?l")
    case True
    then have s: "adjust_index ?l ?w (int idx + ?w) = int idx + ?w"
      using pos(1) by (auto simp: adjust_index_def)
    have eq: "?l - (int idx + ?w) - 1 = (?w - ?col - 1) + (?h - ?row - 2) * ?w"
      unfolding l using id by (simp add: algebra_simps)
    have small: "(?w - ?col - 1) div ?w = 0"
      using b(3,4) by (simp add: div_pos_pos_trivial)
    have nz: "?w \<noteq> 0" using pos(1) by simp
    have "(?l - (int idx + ?w) - 1) div ?w = ((?w - ?col - 1) + (?h - ?row - 2) * ?w) div ?w"
      by (simp only: eq)
    also have "\<dots> = (?h - ?row - 2) + (?w - ?col - 1) div ?w"
      using nz by (rule div_mult_self1)
    finally have "(?l - (int idx + ?w) - 1) div ?w = ?h - ?row - 2"
      by (simp only: small add_0_right)
    then have cnt: "(?l - (int idx + ?w) - 1) div ?w + 1 = ?h - ?row - 1" by simp
    have "slice_indices (length (data g)) (int idx + ?w) None ?w
        = Inr (map (\<lambda>k. nat (int idx + ?w + int k * ?w)) [0..<nat (?h - ?row - 1)])"
      unfolding slice_indices_def Let_def s option.case cnt [symmetric] using pos(1) True by simp
    then show ?thesis
      using b(1,3) by (simp add: items_south_of_def start south_of_def elem rows)
  next
    case False
    then have s: "adjust_index ?l ?w (int idx + ?w) = ?l"
      using pos(1) by (auto simp: adjust_index_def)
    have "?h * ?w \<le> ?row * ?w + ?col + ?w" using False l id by linarith
    also have "\<dots> < ?row * ?w + ?w + ?w" using b(3) by linarith
    also have "\<dots> = (?row + 2) * ?w" by (simp add: distrib_right)
    finally have "?h < ?row + 2" using pos(1) by (simp add: mult_less_cancel_right)
    then have "nat (?h - ?row - 1) = 0" by simp
    then have none: "nat ?h - 1 - idx div nat ?w = 0" using rows by simp
    have "slice_indices (length (data g)) (int idx + ?w) None ?w = Inr []"
      unfolding slice_indices_def Let_def s option.case using pos(1) by simp
    then show ?thesis
      using b(1,3) none by (simp add: items_south_of_def start south_of_def)
  qed
qed

lemma clue_strips_wf:
  assumes "wf_grid g" "idx < length (data g)"
  shows "clue_strips g idx = Inr (south_of g idx, east_of g idx)"
  using wf_grid_row_col [OF assms] items_south_of_wf [OF assms] items_east_of_wf [OF assms]
  by (simp add: clue_strips_def ebind_def)

section \<open>The solved-check\<close>

lemma all_unique_cell:
  "all_unique g \<Longrightarrow> i < length (data g) \<Longrightarrow> is_Cell (data g ! i) \<Longrightarrow> is_unique (cell_at g i)"
  by (simp add: all_unique_def list_all_length cell_at_def)

lemma unique_values_run:
  assumes "all_unique g" "\<forall>i\<in>set idxs. i < length (data g)"
  shows "unique_values g (contiguous g idxs) = Inr (run_values g idxs)"
  unfolding run_values_def
proof (rule unique_values_uniques, rule ballI)
  fix i assume i: "i \<in> set (contiguous g idxs)"
  with contiguous_cells(1,2) [of g idxs] assms(2) have "i < length (data g)" "is_Cell (data g ! i)"
    by auto
  with assms(1) show "is_unique (cell_at g i)" by (rule all_unique_cell)
qed

lemma strips_in_range:
  assumes "wf_grid g" "idx < length (data g)"
  shows "\<forall>i\<in>set (south_of g idx). i < length (data g)" "\<forall>i\<in>set (east_of g idx). i < length (data g)"
    "distinct (south_of g idx)" "distinct (east_of g idx)"
  using clue_strips_ok [OF clue_strips_wf [OF assms]] by blast+

lemma length_card_distinct: "length xs \<noteq> card (set xs) \<longleftrightarrow> \<not> distinct xs"
  by (metis card_distinct distinct_card)

lemma clue_solved_wf:
  assumes wf: "wf_grid g" and u: "all_unique g" and idx: "idx < length (data g)"
  shows "clue_solved g idx v h = Inr (run_ok g (south_of g idx) v \<and> run_ok g (east_of g idx) h)"
proof -
  note r = strips_in_range [OF wf idx]
  let ?vs = "run_values g (south_of g idx)" and ?hs = "run_values g (east_of g idx)"
  have "clue_solved g idx v h =
      (if length ?hs \<noteq> card (set ?hs) \<or> length ?vs \<noteq> card (set ?vs) then Inr False
       else if v \<noteq> sum_list ?vs \<or> h \<noteq> sum_list ?hs then Inr False else Inr True)"
    unfolding clue_solved_def wf_grid_row_col [OF wf idx]
    by (simp add: ebind_def items_south_of_wf [OF wf idx] items_east_of_wf [OF wf idx]
        unique_values_run [OF u r(1)] unique_values_run [OF u r(2)])
  also have "\<dots> = Inr (run_ok g (south_of g idx) v \<and> run_ok g (east_of g idx) h)"
    unfolding length_card_distinct run_ok_def by (cases "distinct ?hs"; cases "distinct ?vs"; simp; blast)
  finally show ?thesis .
qed

lemma is_solved_clues_wf:
  assumes wf: "wf_grid g" and u: "all_unique g"
  shows "\<forall>i\<in>set idxs. i < length (data g) \<Longrightarrow>
     is_solved_clues g idxs =
       Inr (\<forall>idx\<in>set idxs. \<not> is_Cell (data g ! idx) \<longrightarrow>
              run_ok g (south_of g idx) (vertical (data g ! idx))
              \<and> run_ok g (east_of g idx) (horizontal (data g ! idx)))"
proof (induction idxs)
  case Nil
  then show ?case by simp
next
  case (Cons idx rest)
  then have idx: "idx < length (data g)" and rest: "\<forall>i\<in>set rest. i < length (data g)" by simp_all
  note IH = Cons.IH [OF rest]
  show ?case
  proof (cases "data g ! idx")
    case (Cell c)
    then show ?thesis by (simp add: IH)
  next
    case (Clue v h)
    show ?thesis
    proof (cases "run_ok g (south_of g idx) v \<and> run_ok g (east_of g idx) h")
      case True
      then show ?thesis by (simp add: Clue clue_solved_wf [OF wf u idx] IH)
    next
      case False
      then show ?thesis by (simp add: Clue clue_solved_wf [OF wf u idx]) blast
    qed
  qed
qed

text \<open>
  C3, as amended. For a grid that keeps the invariant of the data model, the solved-check returns
  true if and only if every cell holds exactly one candidate and, for every clue, the run to the
  south and the run to the east each have pairwise distinct values that add up to the clue's
  target for that direction, a target of zero included; it raises nothing.
\<close>

theorem is_solved_runs:
  assumes "wf_grid g"
  shows "is_solved g = Inr (runs_solved g)"
proof (cases "all_unique g")
  case True
  with is_solved_clues_wf [OF assms True, of "[0..<length (data g)]"] show ?thesis
    by (simp add: is_solved_def runs_solved_def)
next
  case False
  then show ?thesis by (simp add: is_solved_def runs_solved_def)
qed

theorem is_solved_runs_witness:
  "runs_solved \<lparr>width = 2, height = 3,
       data = [Clue 3 0, Clue 0 0, Cell {1}, Clue 0 0, Cell {2}, Clue 0 0]\<rparr>
   \<and> \<not> runs_solved \<lparr>width = 2, height = 1, data = [Clue 0 0, Cell {5}]\<rparr>"
proof -
  let ?g = "\<lparr>width = 2, height = 3, data = [Clue 3 0, Clue 0 0, Cell {1}, Clue 0 0, Cell {2}, Clue 0 0]\<rparr>"
  let ?k = "\<lparr>width = 2, height = 1, data = [Clue 0 0, Cell {5}]\<rparr>"
  have wf: "wf_grid ?g" "wf_grid ?k" by (simp_all add: wf_grid_def)
  have "is_solved ?g = Inr True" by code_simp
  moreover have "is_solved ?k = Inr False" by code_simp
  ultimately show ?thesis
    using is_solved_runs [OF wf(1)] is_solved_runs [OF wf(2)] by simp
qed

text \<open>
  C3 as the claim words it fails for a clue without targets next to a cell: every cell is
  resolved and no direction has a nonzero target, and the check returns false, because the run to
  the east of the clue adds up to 5 and not to 0.
\<close>

theorem is_solved_runs_counterexample:
  "claimed_solved \<lparr>width = 2, height = 1, data = [Clue 0 0, Cell {5}]\<rparr>
   \<and> is_solved \<lparr>width = 2, height = 1, data = [Clue 0 0, Cell {5}]\<rparr> = Inr False"
  by code_simp

section \<open>Search\<close>

lemma assign_dims [simp]:
  "width (assign c p g) = width g" "height (assign c p g) = height g"
  "length (data (assign c p g)) = length (data g)"
  by (induction c p g rule: assign.induct) simp_all

lemma wf_grid_assign [simp]: "wf_grid (assign c p g) \<longleftrightarrow> wf_grid g"
  by (simp add: wf_grid_def)

lemma set_cell_swap: "i \<noteq> j \<Longrightarrow> set_cell (set_cell g j Y) i X = set_cell (set_cell g i X) j Y"
  by (simp add: set_cell_def list_update_swap)

lemma set_cell_twice: "set_cell (set_cell g i Y) i X = set_cell g i X"
  by (simp add: set_cell_def)

lemma assign_set_cell:
  "i \<notin> set p \<Longrightarrow> set_cell (assign c p g) i X = assign c p (set_cell g i X)"
proof (induction c p g rule: assign.induct)
  case (1 x combination cell pending_cells g)
  then show ?case by (simp add: set_cell_swap [of i cell])
qed simp_all

lemma assign_overwrite:
  "distinct p \<Longrightarrow> length c' = length p \<Longrightarrow> length c = length p
     \<Longrightarrow> assign c p (assign c' p g) = assign c p g"
proof (induction p arbitrary: c c' g)
  case Nil
  then show ?case by simp
next
  case (Cons i p)
  from Cons.prems obtain x c1 where c: "c = x # c1" "length c1 = length p"
    by (cases c) auto
  from Cons.prems obtain x' c1' where c': "c' = x' # c1'" "length c1' = length p"
    by (cases c') auto
  from Cons.prems have i: "i \<notin> set p" and d: "distinct p" by simp_all
  have "assign c (i # p) (assign c' (i # p) g)
      = assign c1 p (set_cell (assign c1' p (set_cell g i {x'})) i {x})"
    by (simp add: c c')
  also have "\<dots> = assign c1 p (assign c1' p (set_cell g i {x}))"
    by (simp add: assign_set_cell [OF i] set_cell_twice)
  also have "\<dots> = assign c1 p (set_cell g i {x})"
    using Cons.IH [OF d c'(2) c(2)] .
  finally show ?case by (simp add: c)
qed

lemma assign_read:
  "distinct p \<Longrightarrow> length c = length p \<Longrightarrow> \<forall>i\<in>set p. i < length (data g)
     \<Longrightarrow> map (cell_at (assign c p g)) p = map (\<lambda>x. {x}) c"
proof (induction p arbitrary: c g)
  case Nil
  then show ?case by simp
next
  case (Cons i p)
  from Cons.prems obtain x c1 where c: "c = x # c1" "length c1 = length p"
    by (cases c) auto
  from Cons.prems have i: "i \<notin> set p" "i < length (data g)" and d: "distinct p"
    and r: "\<forall>j\<in>set p. j < length (data (set_cell g i {x}))" by simp_all
  have "assign c1 p (set_cell g i {x}) = set_cell (assign c1 p g) i {x}"
    using assign_set_cell [OF i(1)] by simp
  then have "cell_at (assign c (i # p) g) i = {x}"
    using i(2) by (simp add: c cell_at_def set_cell_nth)
  with Cons.IH [OF d c(2) r] show ?case by (simp add: c)
qed

lemma cells_wf:
  assumes "wf_grid g"
  shows "cells g = Inr (filter (\<lambda>idx. is_Cell (data g ! idx)) [0..<length (data g)])"
proof -
  have "emap (\<lambda>idx. ebind (row_col g idx) (\<lambda>_. Inr idx)) idxs = Inr idxs"
    if "\<forall>i\<in>set idxs. i < length (data g)" for idxs
    using that by (induction idxs) (simp_all add: wf_grid_row_col [OF assms] ebind_def)
  then show ?thesis by (simp add: cells_def)
qed

lemma pending_cells_distinct: "distinct (pending_cells g)"
  and pending_cells_in_range: "\<forall>i\<in>set (pending_cells g). i < length (data g) \<and> is_Cell (data g ! i)"
  by (simp_all add: pending_cells_def)

lemma combinations_length: "c \<in> set (combinations enum g) \<Longrightarrow> length c = length (pending_cells g)"
  unfolding combinations_def by (drule in_set_product_lists_length) simp

lemma crack_loop_wf:
  assumes wf: "wf_grid g" and d: "distinct p" and len: "\<forall>c\<in>set combos. length c = length p"
    and prev: "g = g0 \<or> (\<exists>c. length c = length p \<and> g = assign c p g0)"
  shows "crack_loop p combos sols g =
     (Inr (sols @ filter (\<lambda>c. is_solved (assign c p g0) = Inr True) combos),
      if combos = [] then g else assign (last combos) p g0)"
  using wf len prev
proof (induction combos arbitrary: sols g)
  case Nil
  then show ?case by simp
next
  case (Cons c rest)
  from Cons.prems have lc: "length c = length p" and lr: "\<forall>c\<in>set rest. length c = length p"
    by simp_all
  have same: "assign c p g = assign c p g0"
    using Cons.prems(3) assign_overwrite [OF d _ lc] by auto
  have wf1: "wf_grid (assign c p g0)"
    using Cons.prems(1,3) by auto
  then obtain ok where ok: "is_solved (assign c p g0) = Inr ok"
    using is_solved_runs by blast
  have nxt: "assign c p g0 = g0 \<or> (\<exists>c'. length c' = length p \<and> assign c p g0 = assign c' p g0)"
    using lc by blast
  show ?case
    using Cons.IH [OF wf1 lr nxt, of "if ok then sols @ [c] else sols"] ok same
    by (simp add: Let_def)
qed

lemma crack_unfold:
  assumes "wf_grid g"
  shows "crack enum g =
     (case crack_loop (pending_cells g) (combinations enum g) [] g of
        (Inl e, g') \<Rightarrow> (Inl e, g')
      | (Inr [], g') \<Rightarrow> (Inr False, g')
      | (Inr (first # _), g') \<Rightarrow> (Inr True, assign first (pending_cells g) g'))"
  unfolding crack_def cells_wf [OF assms] pending_cells_def combinations_def Let_def by simp

lemma crack_wf:
  assumes wf: "wf_grid g"
  shows "crack enum g =
     (let solutions = filter (\<lambda>c. is_solved (assign c (pending_cells g) g) = Inr True)
                        (combinations enum g)
      in if solutions = []
         then (Inr False,
               if combinations enum g = [] then g
               else assign (last (combinations enum g)) (pending_cells g) g)
         else (Inr True, assign (hd solutions) (pending_cells g) g))"
proof -
  let ?p = "pending_cells g" and ?combos = "combinations enum g"
  let ?sols = "filter (\<lambda>c. is_solved (assign c ?p g) = Inr True) ?combos"
  let ?last = "if ?combos = [] then g else assign (last ?combos) ?p g"
  have loop: "crack_loop ?p ?combos [] g = (Inr ?sols, ?last)"
    using crack_loop_wf [OF wf pending_cells_distinct, where combos = ?combos and ?g0.0 = g
        and sols = "[]"] combinations_length
    by auto
  have final: "assign (hd ?sols) ?p ?last = assign (hd ?sols) ?p g" if "?sols \<noteq> []"
  proof -
    from that have "hd ?sols \<in> set ?combos"
      by (metis (no_types, lifting) filter_is_subset hd_in_set subsetD)
    then have l1: "length (hd ?sols) = length ?p" by (rule combinations_length)
    from that have ne: "?combos \<noteq> []" by auto
    then have "length (last ?combos) = length ?p" using combinations_length last_in_set by blast
    with ne l1 show ?thesis by (simp add: assign_overwrite [OF pending_cells_distinct])
  qed
  show ?thesis
  proof (cases ?sols)
    case Nil
    with loop show ?thesis
      unfolding crack_unfold [OF wf] Let_def by simp
  next
    case (Cons first others)
    with final have "assign first ?p ?last = assign first ?p g" by simp
    with loop Cons show ?thesis
      unfolding crack_unfold [OF wf] Let_def by simp
  qed
qed

lemma combinations_set:
  assumes "\<forall>i\<in>set (pending_cells g). set (enum i (cell_at g i)) = cell_at g i"
  shows "set (combinations enum g) =
     {c. length c = length (pending_cells g)
         \<and> (\<forall>k<length (pending_cells g). c ! k \<in> cell_at g (pending_cells g ! k))}"
  unfolding combinations_def product_lists_set list_all2_map2 list_all2_conv_all_nth
  using assms by auto

text \<open>
  C4, as amended. For a grid that keeps the invariant of the data model, the search tries the
  combinations of candidates of the non-unique cells in the order of the product. If none of them
  passes the solved-check it returns false and leaves in those cells the last combination tried,
  one digit each, when there was a combination to try, and leaves the grid as it was when there
  was none (a non-unique cell without candidates). If some combination passes, it returns true
  and leaves in those cells the first combination that passes, whatever the number of those that
  pass. (When \<open>enum\<close> lists each candidate set, the combinations tried are those of the Cartesian
  product of the candidate sets.)
\<close>

theorem crack_outcome:
  assumes "wf_grid g"
  shows "let pending = pending_cells g;
             combos = combinations enum g;
             solved = (\<lambda>c. is_solved (assign c pending g) = Inr True)
         in ((\<forall>c\<in>set combos. \<not> solved c) \<longrightarrow>
               crack enum g = (Inr False, if combos = [] then g else assign (last combos) pending g))
            \<and> ((\<exists>c\<in>set combos. solved c) \<longrightarrow>
               crack enum g = (Inr True, assign (hd (filter solved combos)) pending g))
            \<and> (\<forall>c\<in>set combos. map (cell_at (assign c pending g)) pending = map (\<lambda>x. {x}) c)
            \<and> ((\<forall>i\<in>set pending. set (enum i (cell_at g i)) = cell_at g i) \<longrightarrow>
                 set combos = {c. length c = length pending
                                  \<and> (\<forall>k<length pending. c ! k \<in> cell_at g (pending ! k))})"
proof -
  let ?p = "pending_cells g" and ?combos = "combinations enum g"
  let ?solved = "\<lambda>c. is_solved (assign c ?p g) = Inr True"
  have none: "crack enum g = (Inr False, if ?combos = [] then g else assign (last ?combos) ?p g)"
    if "\<forall>c\<in>set ?combos. \<not> ?solved c"
  proof -
    from that have "filter ?solved ?combos = []" by (simp add: filter_empty_conv)
    then show ?thesis unfolding crack_wf [OF assms] Let_def by simp
  qed
  have some: "crack enum g = (Inr True, assign (hd (filter ?solved ?combos)) ?p g)"
    if "\<exists>c\<in>set ?combos. ?solved c"
  proof -
    from that have "filter ?solved ?combos \<noteq> []" by (simp add: filter_empty_conv)
    then show ?thesis unfolding crack_wf [OF assms] Let_def by simp
  qed
  have digits: "map (cell_at (assign c ?p g)) ?p = map (\<lambda>x. {x}) c" if "c \<in> set ?combos" for c
    using assign_read [OF pending_cells_distinct combinations_length [OF that]]
      pending_cells_in_range by blast
  show ?thesis
    unfolding Let_def using none some digits combinations_set [of g enum] by blast
qed

lemma solved_grid_6:
  "pending_cells \<lparr>width = 3, height = 1, data = [Clue 0 6, Cell {1, 2}, Cell {4, 5}]\<rparr> = [Suc 0, 2]"
  "combinations ascending \<lparr>width = 3, height = 1, data = [Clue 0 6, Cell {1, 2}, Cell {4, 5}]\<rparr>
     = [[1, 4], [1, 5], [2, 4], [2, 5]]"
  "is_solved (assign [1, 4] [Suc 0, 2] \<lparr>width = 3, height = 1, data = [Clue 0 6, Cell {1, 2}, Cell {4, 5}]\<rparr>) = Inr False"
  "is_solved (assign [1, 5] [Suc 0, 2] \<lparr>width = 3, height = 1, data = [Clue 0 6, Cell {1, 2}, Cell {4, 5}]\<rparr>) = Inr True"
  "is_solved (assign [2, 4] [Suc 0, 2] \<lparr>width = 3, height = 1, data = [Clue 0 6, Cell {1, 2}, Cell {4, 5}]\<rparr>) = Inr True"
  "is_solved (assign [2, 5] [Suc 0, 2] \<lparr>width = 3, height = 1, data = [Clue 0 6, Cell {1, 2}, Cell {4, 5}]\<rparr>) = Inr False"
  "assign [1, 5] [Suc 0, 2] \<lparr>width = 3, height = 1, data = [Clue 0 6, Cell {1, 2}, Cell {4, 5}]\<rparr>
     = \<lparr>width = 3, height = 1, data = [Clue 0 6, Cell {1}, Cell {5}]\<rparr>"
  "is_solved \<lparr>width = 3, height = 1, data = [Clue 0 6, Cell {1}, Cell {5}]\<rparr> = Inr True"
  by code_simp+

lemma failed_grid_6:
  "pending_cells \<lparr>width = 3, height = 1, data = [Clue 0 6, Cell {3}, Cell {1, 2}]\<rparr> = [2]"
  "combinations ascending \<lparr>width = 3, height = 1, data = [Clue 0 6, Cell {3}, Cell {1, 2}]\<rparr> = [[1], [2]]"
  "is_solved (assign [1] [2] \<lparr>width = 3, height = 1, data = [Clue 0 6, Cell {3}, Cell {1, 2}]\<rparr>) = Inr False"
  "is_solved (assign [2] [2] \<lparr>width = 3, height = 1, data = [Clue 0 6, Cell {3}, Cell {1, 2}]\<rparr>) = Inr False"
  "assign [2] [2] \<lparr>width = 3, height = 1, data = [Clue 0 6, Cell {3}, Cell {1, 2}]\<rparr>
     = \<lparr>width = 3, height = 1, data = [Clue 0 6, Cell {3}, Cell {2}]\<rparr>"
  "is_solved \<lparr>width = 3, height = 1, data = [Clue 0 6, Cell {3}, Cell {2}]\<rparr> = Inr False"
  by code_simp+

theorem crack_outcome_witness:
  "crack ascending \<lparr>width = 3, height = 1, data = [Clue 0 6, Cell {1, 2}, Cell {4, 5}]\<rparr>
     = (Inr True, \<lparr>width = 3, height = 1, data = [Clue 0 6, Cell {1}, Cell {5}]\<rparr>)
   \<and> crack ascending \<lparr>width = 3, height = 1, data = [Clue 0 6, Cell {3}, Cell {1, 2}]\<rparr>
     = (Inr False, \<lparr>width = 3, height = 1, data = [Clue 0 6, Cell {3}, Cell {2}]\<rparr>)"
proof -
  let ?g = "\<lparr>width = 3, height = 1, data = [Clue 0 6, Cell {1, 2}, Cell {4, 5}]\<rparr>"
  let ?k = "\<lparr>width = 3, height = 1, data = [Clue 0 6, Cell {3}, Cell {1, 2}]\<rparr>"
  have wf: "wf_grid ?g" "wf_grid ?k" by (simp_all add: wf_grid_def)
  have a: "crack ascending ?g = (Inr True, \<lparr>width = 3, height = 1, data = [Clue 0 6, Cell {1}, Cell {5}]\<rparr>)"
    using crack_outcome [OF wf(1), of ascending] by (simp add: Let_def solved_grid_6 del: assign.simps)
  have b: "crack ascending ?k = (Inr False, \<lparr>width = 3, height = 1, data = [Clue 0 6, Cell {3}, Cell {2}]\<rparr>)"
    using crack_outcome [OF wf(2), of ascending] by (simp add: Let_def failed_grid_6 del: assign.simps)
  from a b show ?thesis ..
qed

text \<open>
  C4 as the claim words it fails for a non-unique cell that has no candidate left: there is no
  combination to try, the search returns false, and the cell holds no digit, not a single one.
\<close>

theorem crack_outcome_counterexample:
  "crack ascending \<lparr>width = 1, height = 1, data = [Cell {}]\<rparr>
     = (Inr False, \<lparr>width = 1, height = 1, data = [Cell {}]\<rparr>)
   \<and> combinations ascending \<lparr>width = 1, height = 1, data = [Cell {}]\<rparr> = []
   \<and> \<not> is_unique (cell_at (snd (crack ascending \<lparr>width = 1, height = 1, data = [Cell {}]\<rparr>)) 0)"
  by code_simp

text \<open>
  C7. In a grid that keeps the invariant of the data model and in which every cell is unique,
  the search has no pending cell and the product of no candidate sets is the one empty
  combination, which assigns nothing: the grid stays as it is and the outcome is the outcome of
  the solved-check on it.
\<close>

theorem crack_all_unique:
  assumes "wf_grid g" and "all_unique g"
  shows "pending_cells g = [] \<and> combinations enum g = [[]] \<and> crack enum g = (is_solved g, g)"
proof -
  have p: "pending_cells g = []"
    using assms(2) by (auto simp: pending_cells_def filter_empty_conv all_unique_cell)
  then have c: "combinations enum g = [[]]" by (simp add: combinations_def)
  obtain ok where ok: "is_solved g = Inr ok" using is_solved_runs [OF assms(1)] by blast
  have "crack enum g = (is_solved g, g)"
    unfolding crack_wf [OF assms(1)] Let_def p c using ok by (cases ok) simp_all
  with p c show ?thesis by simp
qed

theorem crack_all_unique_witness:
  "crack ascending \<lparr>width = 2, height = 3,
       data = [Clue 3 0, Clue 0 0, Cell {1}, Clue 0 0, Cell {2}, Clue 0 0]\<rparr>
     = (Inr True, \<lparr>width = 2, height = 3,
       data = [Clue 3 0, Clue 0 0, Cell {1}, Clue 0 0, Cell {2}, Clue 0 0]\<rparr>)"
proof -
  let ?g = "\<lparr>width = 2, height = 3, data = [Clue 3 0, Clue 0 0, Cell {1}, Clue 0 0, Cell {2}, Clue 0 0]\<rparr>"
  have "wf_grid ?g" by (simp add: wf_grid_def)
  moreover have "all_unique ?g" by (simp add: all_unique_def is_unique_def)
  moreover have "is_solved ?g = Inr True" by code_simp
  ultimately show ?thesis using crack_all_unique [of ?g ascending] by simp
qed

end
